theory Spec2Isabelle
  imports Complex_Main "HOL-Library.Word" "HOL-Library.Signed_Division"
begin

unbundle bit_operations_syntax

section \<open>The wave: a sliding-window sum of bounded integers (wave.h, wave.c)\<close>

text \<open>
  Conventions of the embedding.

  \<^item> A \<open>long long\<close> is an \<open>int\<close>, and every addition, subtraction and multiplication
    of the code is followed by \<open>wrap64\<close>, the value the 64-bit two's-complement register
    holds: signed overflow, undefined in C, wraps on the machine. (The sum
    \<open>total + v\<close> of \<open>waveComputeTotalLevel\<close> goes into a \<open>64 word\<close>, which wraps by itself.)
  \<^item> C's \<open>/\<close> and \<open>%\<close> truncate towards zero: \<open>sdiv\<close> and \<open>smod\<close>.
  \<^item> An \<open>unsigned long\<close> holding a bit pattern is a \<open>64 word\<close>; one holding a count or an
    index is a \<open>nat\<close>.
  \<^item> A \<open>double\<close> is the \<open>rat\<close> it stands for, and an operation on doubles is the exact
    operation followed by \<open>to_double\<close>, the rounding to the nearest double (section
    \<open>Machine arithmetic\<close>).
  \<^item> An adlist \<open>list *\<close> of \<open>waveitem *\<close> is the HOL list of the items, head first. The
    code never compares item pointers: it finds an item by comparing the three fields,
    which is equality of records here.
  \<^item> The pointer \<open>wave *w\<close> is the record it points to, returned updated. The guards
    \<open>if (! w)\<close> are not modelled: every caller in wave.c dereferences \<open>w\<close> first.
  \<^item> Three computations of the code call the logarithm of the C library. Two are
    parameters of the model, so that every theorem holds whatever the platform computes:
    \<open>ceil_log\<close>, the value of \<^verbatim>\<open>abs(ceil(log(2*E*N*r)/log(base)))\<close> in \<open>waveNumLevels\<close>,
    and \<open>ninf\<close>, the \<open>unsigned long\<close> that the conversion of \<open>floor(log(0))\<close>, minus
    infinity, yields (the C standard leaves it undefined; x86-64 yields \<open>2^63\<close>). The
    third, \<open>floor(log(h))\<close> for \<open>h > 0\<close>, is the exact integer part of the natural
    logarithm (\<open>floor_log\<close>); the rounding of \<open>h\<close> and of \<open>log\<close> to \<open>double\<close> is left out
    there, and it matters only where \<open>ln h\<close> is within a rounding error of an integer.
\<close>

subsection \<open>Machine arithmetic\<close>

definition LLONG_MAX :: int where
  "LLONG_MAX = 9223372036854775807"

text \<open>The value a 64-bit two's-complement register holds after an operation whose exact
  result is \<open>x\<close>.\<close>

definition wrap64 :: "int \<Rightarrow> int" where
  "wrap64 x = (x + 2 ^ 63) mod 2 ^ 64 - 2 ^ 63"

text \<open>
  The doubles (IEEE 754 binary64) are the numbers \<open>m * 2^e\<close> with \<open>\<bar>m\<bar> < 2^53\<close>, and an
  operation yields the double nearest to its exact result, the one with the even \<open>m\<close>
  when two are equally near. \<open>floor_lb n\<close> and \<open>ceil_lb n\<close> are the binary logarithm of
  \<open>n \<ge> 1\<close> rounded down and up, \<open>binade x\<close> is the \<open>e\<close> with \<open>2^e \<le> x < 2^(e + 1)\<close> for
  \<open>x > 0\<close>, and \<open>round_even\<close> rounds to the nearest integer, a half to the even one.
  The range of the exponent is not modelled: no result is taken to infinity or to a
  subnormal number.
\<close>

function floor_lb :: "int \<Rightarrow> int" where
  "floor_lb n = (if n < 2 then 0 else floor_lb (n div 2) + 1)"
  by pat_completeness auto
termination
  by (relation "measure nat") auto

function ceil_lb :: "int \<Rightarrow> int" where
  "ceil_lb n = (if n \<le> 1 then 0 else ceil_lb ((n + 1) div 2) + 1)"
  by pat_completeness auto
termination
  by (relation "measure nat") auto

declare floor_lb.simps [simp del]

declare ceil_lb.simps [simp del]

definition binade :: "rat \<Rightarrow> int" where
  "binade x = (if 1 \<le> x then floor_lb \<lfloor>x\<rfloor> else - ceil_lb \<lceil>1 / x\<rceil>)"

definition round_even :: "rat \<Rightarrow> int" where
  "round_even x = (let f = \<lfloor>x\<rfloor>; d = x - of_int f
                   in if d < 1 / 2 \<or> (d = 1 / 2 \<and> even f) then f else f + 1)"

definition to_double :: "rat \<Rightarrow> rat" where
  "to_double x =
     (if x = 0 then 0
      else let u = power_int 2 (binade \<bar>x\<bar> - 52)
           in sgn x * of_int (round_even (\<bar>x\<bar> / u)) * u)"

text \<open>The conversion of a double to \<open>long long\<close> drops the fraction. Outside the range
  of \<open>long long\<close> it is undefined in C; x86-64 yields \<open>LLONG_MIN\<close>.\<close>

definition ll_of_double :: "rat \<Rightarrow> int" where
  "ll_of_double d = (let t = (if 0 \<le> d then \<lfloor>d\<rfloor> else \<lceil>d\<rceil>)
                     in if - (2 ^ 63) \<le> t \<and> t < 2 ^ 63 then t else - (2 ^ 63))"

subsection \<open>wave.h\<close>

text \<open>
  \<^verbatim>\<open>for (; i < 63; ++i) { ret = pow(2,i); if (ret >= (2*N*R)) break; }  return ret;\<close>
  with \<open>x\<close> the value of \<open>2*N*R\<close>.
\<close>

function waveModulo_loop :: "nat \<Rightarrow> int \<Rightarrow> int \<Rightarrow> int" where
  "waveModulo_loop i ret x =
     (if i < 63
      then (if 2 ^ i \<ge> x then 2 ^ i else waveModulo_loop (i + 1) (2 ^ i) x)
      else ret)"
  by pat_completeness auto
termination
  by (relation "measure (\<lambda>(i, ret, x). 63 - i)") auto

declare waveModulo_loop.simps [simp del]

definition waveModulo :: "int \<Rightarrow> int \<Rightarrow> int" where
  "waveModulo n r =
     (if r > 0 \<and> n > LLONG_MAX sdiv wrap64 (2 * r) then LLONG_MAX
      else waveModulo_loop 0 0 (wrap64 (wrap64 (2 * n) * r)))"

record waveitem =
  ipos :: int
  iv :: int
  iz :: int

record wave =
  expire :: int
  N :: int
  E :: rat
  R :: int
  M :: int
  start :: int
  last_ts :: int
  pos :: int
  total :: int
  z :: int
  l :: "waveitem list list"
  L :: "waveitem list"

datatype error = AssertFailed | OutOfBounds

text \<open>
  \<open>waveNumLevels\<close>: \<open>redisAssert(R > 0)\<close> stops the server when it fails. After it
  \<open>r = R\<close> is not zero, so the branch \<open>r = waveMaxIncrement(N)\<close> is dead. \<open>ceil_log n e r\<close>
  stands for \<^verbatim>\<open>F = abs(ceil(L))\<close>, \<^verbatim>\<open>float L = log(2*E*N*r)/log(base)\<close>.
\<close>

definition waveNumLevels :: "(int \<Rightarrow> rat \<Rightarrow> int \<Rightarrow> nat) \<Rightarrow> wave \<Rightarrow> error + nat" where
  "waveNumLevels ceil_log w =
     (if R w > 0
      then (let F = ceil_log (N w) (E w) (R w) in if F > 62 then Inr 63 else Inr (1 + F))
      else Inl AssertFailed)"

subsection \<open>wave.c: level capacity and level selection\<close>

definition waveitemCreate :: "int \<Rightarrow> int \<Rightarrow> int \<Rightarrow> waveitem" where
  "waveitemCreate p v' z' = \<lparr>ipos = p, iv = v', iz = z'\<rparr>"

text \<open>
  \<^verbatim>\<open>if (! E) E = 0.01;  return ceil( (1 / E )  + 1 );\<close> The division and the addition
  are operations on doubles. The conversion of the result to \<open>unsigned long\<close> is
  undefined in C outside the range of the type; the model reduces modulo \<open>2^64\<close>, as
  x86-64 does with the negative results of a negative \<open>E\<close>. The command sets \<open>E\<close> in
  \<open>(0, 1)\<close>.
\<close>

definition waveLevelMaxPositions :: "rat \<Rightarrow> nat" where
  "waveLevelMaxPositions e =
     (let e' = (if e = 0 then to_double (1 / 100) else e)
      in unat (word_of_int \<lceil>to_double (to_double (1 / e') + 1)\<rceil> :: 64 word))"

text \<open>\<open>exp_ceilings ! (k - 1)\<close> is the least integer above \<open>e^k\<close>, for every \<open>k\<close> with
  \<open>e^k < 2^64\<close>; so \<open>k \<le> ln h\<close> exactly when \<open>exp_ceilings ! (k - 1) \<le> h\<close>.\<close>

definition exp_ceilings :: "int list" where
  "exp_ceilings =
     [3, 8, 21, 55, 149, 404, 1097, 2981, 8104, 22027, 59875, 162755, 442414, 1202605,
      3269018, 8886111, 24154953, 65659970, 178482301, 485165196, 1318815735, 3584912847,
      9744803447, 26489122130, 72004899338, 195729609429, 532048240602, 1446257064292,
      3931334297145, 10686474581525, 29048849665248, 78962960182681, 214643579785917,
      583461742527455, 1586013452313431, 4311231547115196, 11719142372802612,
      31855931757113757, 86593400423993747, 235385266837019986, 639843493530054950,
      1739274941520501048, 4727839468229346562, 12851600114359308276]"

text \<open>
  The table is checked against the exponential function by interval arithmetic on
  integers scaled by \<open>exp_scale\<close>: \<open>e_lower\<close> and \<open>e_upper\<close> enclose \<open>e\<close>, \<open>e_sum n\<close> is
  \<open>n!\<close> times the \<open>n\<close>-th partial sum of the series of \<open>e\<close>, and \<open>exp_table_ok a b cs\<close>
  multiplies an enclosure \<open>[a, b]\<close> of \<open>e^k\<close> by the enclosure of \<open>e\<close> and compares the
  result with the next entry of the table.
\<close>

definition exp_scale :: int where
  "exp_scale = 1000000000000000000000000000"

definition e_lower :: int where
  "e_lower = 2718281828459045235360287471"

definition e_upper :: int where
  "e_upper = 2718281828459045235360287472"

fun e_sum :: "nat \<Rightarrow> int" where
  "e_sum 0 = 1"
| "e_sum (Suc n) = int (Suc n) * e_sum n + 1"

fun exp_table_ok :: "int \<Rightarrow> int \<Rightarrow> int list \<Rightarrow> bool" where
  "exp_table_ok a b [] = True"
| "exp_table_ok a b (c # cs) =
     (let a' = (a * e_lower) div exp_scale;
          b' = - ((- (b * e_upper)) div exp_scale)
      in (c - 1) * exp_scale < a' \<and> b' < c * exp_scale \<and> exp_table_ok a' b' cs)"

text \<open>\<^verbatim>\<open>j = floor(log(h))\<close>, \<open>j\<close> and \<open>h\<close> unsigned long: C's \<open>log\<close> is the natural logarithm.\<close>

definition floor_log :: "64 word \<Rightarrow> 64 word \<Rightarrow> 64 word" where
  "floor_log ninf h =
     (if h = 0 then ninf else of_nat (length (filter (\<lambda>c. c \<le> uint h) exp_ceilings)))"

definition waveComputeTotalLevel :: "64 word \<Rightarrow> int \<Rightarrow> int \<Rightarrow> nat \<Rightarrow> nat" where
  "waveComputeTotalLevel ninf total' v' num_levels =
     (if num_levels \<le> 1 then 0
      else let f = NOT (word_of_int total' :: 64 word);
               g = NOT (word_of_int (total' + v') :: 64 word);
               h = f XOR g;
               j = floor_log ninf h
           in if j \<ge> of_nat num_levels then num_levels - 1 else unat j)"

text \<open>The level as section 4.1 of the specification words it: the index of the most
  significant bit in which \<open>T\<close> and \<open>T + v\<close> differ, clamped to the level count.\<close>

fun floor_log2 :: "nat \<Rightarrow> nat" where
  "floor_log2 n = (if n < 2 then 0 else Suc (floor_log2 (n div 2)))"

definition spec_level :: "int \<Rightarrow> int \<Rightarrow> nat \<Rightarrow> nat" where
  "spec_level t v' num_levels =
     (if num_levels \<le> 1 then 0
      else min (floor_log2 (unat (NOT (word_of_int t :: 64 word) XOR NOT (word_of_int (t + v')))))
               (num_levels - 1))"

subsection \<open>wave.c: construction, purge, resize, reset\<close>

text \<open>\<open>now\<close> is the reading of \<open>time(0)\<close>. The allocations of \<open>waveCreate\<close> are taken to
  succeed (zmalloc stops the server otherwise).\<close>

definition waveCreate ::
  "(int \<Rightarrow> rat \<Rightarrow> int \<Rightarrow> nat) \<Rightarrow> int \<Rightarrow> int \<Rightarrow> rat \<Rightarrow> int \<Rightarrow> int \<Rightarrow> int \<Rightarrow> error + wave" where
  "waveCreate ceil_log now n e r ts ex =
     (let e' = (if e = 0 then to_double (5 / 100) else e);
          ts' = (if ts = 0 then now else ts);
          w = \<lparr>expire = ex, N = n, E = e', R = r, M = waveModulo n r,
               start = ts', last_ts = ts', pos = 0, total = 0, z = 0, l = [], L = []\<rparr>
      in case waveNumLevels ceil_log w of
           Inl err \<Rightarrow> Inl err
         | Inr num_levels \<Rightarrow> Inr (w\<lparr>l := replicate num_levels []\<rparr>))"

text \<open>The first loop of \<open>wavePurgeLists\<close>: the queues \<open>l[0]\<close>, ..., \<open>l[k - 1]\<close> lose every
  node. The array \<open>w->l\<close> keeps the length \<open>waveCreate\<close> gave it, and reading it beyond
  that length is undefined: \<open>OutOfBounds\<close>.\<close>

fun purgeLevels :: "nat \<Rightarrow> waveitem list list \<Rightarrow> error + waveitem list list" where
  "purgeLevels 0 qs = Inr qs"
| "purgeLevels (Suc k) [] = Inl OutOfBounds"
| "purgeLevels (Suc k) (q # qs) =
     (case purgeLevels k qs of Inl err \<Rightarrow> Inl err | Inr qs' \<Rightarrow> Inr ([] # qs'))"

definition wavePurgeLists :: "(int \<Rightarrow> rat \<Rightarrow> int \<Rightarrow> nat) \<Rightarrow> wave \<Rightarrow> error + wave" where
  "wavePurgeLists ceil_log w =
     (case waveNumLevels ceil_log w of
        Inl err \<Rightarrow> Inl err
      | Inr num_levels \<Rightarrow>
          (case purgeLevels num_levels (l w) of
             Inl err \<Rightarrow> Inl err
           | Inr qs \<Rightarrow> Inr (w\<lparr>l := qs, L := []\<rparr>)))"

definition waveResize ::
  "(int \<Rightarrow> rat \<Rightarrow> int \<Rightarrow> nat) \<Rightarrow> wave \<Rightarrow> int \<Rightarrow> rat \<Rightarrow> int \<Rightarrow> error + wave" where
  "waveResize ceil_log w n e r =
     (case wavePurgeLists ceil_log w of
        Inl err \<Rightarrow> Inl err
      | Inr w' \<Rightarrow> Inr (w'\<lparr>N := n, E := e, R := r, M := waveModulo n r\<rparr>))"

text \<open>\<open>waveReset\<close> reads the clock twice: \<open>now1\<close> for \<open>start\<close>, \<open>now2\<close> for \<open>last\<close>.\<close>

definition waveReset :: "(int \<Rightarrow> rat \<Rightarrow> int \<Rightarrow> nat) \<Rightarrow> int \<Rightarrow> int \<Rightarrow> wave \<Rightarrow> error + wave" where
  "waveReset ceil_log now1 now2 w =
     wavePurgeLists ceil_log (w\<lparr>start := now1, last_ts := now2, pos := 0, total := 0, z := 0\<rparr>)"

subsection \<open>wave.c: the query\<close>

text \<open>
  \<^verbatim>\<open>while (head && head->pos < (ts - w->N)) { h = h->next; if (h && h->value) head = h->value; else break; }\<close>
  with \<open>bound\<close> the value of \<open>ts - w->N\<close>, \<open>head\<close> the item of the current node and the
  list of the items after it. At the last node the cursor stays where it is.
\<close>

fun walkHead :: "int \<Rightarrow> waveitem \<Rightarrow> waveitem list \<Rightarrow> waveitem" where
  "walkHead bound head [] = head"
| "walkHead bound head (nxt # rest) =
     (if ipos head < bound then walkHead bound nxt rest else head)"

text \<open>
  The macro \<^verbatim>\<open>WAVE_MODULO_OBJ(v,w)\<close> is \<^verbatim>\<open>(v%w->M)\<close>, its argument not parenthesised:
  \<^verbatim>\<open>WAVE_MODULO_OBJ(ts - w->start,w)\<close> is \<^verbatim>\<open>ts - w->start%w->M\<close>, that is
  \<open>ts - (start % M)\<close>, and \<^verbatim>\<open>WAVE_MODULO_OBJ(ts - w->start - w->N, w)\<close> is
  \<open>ts - start - (N % M)\<close>. The two loops add the values of the items they select one by
  one; the register holds the sum of the selected values, wrapped.
\<close>

text \<open>
  \<^verbatim>\<open>return ( total - floor((z1 + z2 - v2)/(2)) );\<close> The quotient is a division of
  \<open>long long\<close>; \<open>floor\<close> takes it as a double and returns a double, so \<open>total\<close> is taken
  to double and the subtraction is one of doubles; the \<open>return\<close> converts the difference
  to \<open>long long\<close>.
\<close>

definition fast_estimate :: "int \<Rightarrow> int \<Rightarrow> int \<Rightarrow> int \<Rightarrow> int" where
  "fast_estimate total' z1 z2 v2 =
     (let q = wrap64 (wrap64 (z1 + z2) - v2) sdiv 2;
          fl = of_int \<lfloor>to_double (of_int q)\<rfloor>
      in ll_of_double (to_double (to_double (of_int total') - fl)))"

definition waveGet :: "wave \<Rightarrow> int \<Rightarrow> bool \<Rightarrow> int" where
  "waveGet w ts fast_total =
     (if ts = 0 then 0
      else if ts < start w then 0
      else if ts \<le> wrap64 (last_ts w - N w) then 0
      else if ts \<ge> wrap64 (last_ts w + N w) then 0
      else if ts = last_ts w then wrap64 (total w - z w)
      else case L w of
        [] \<Rightarrow> 0
      | first # rest \<Rightarrow>
         (let head = walkHead (wrap64 (ts - N w)) first rest;
              z1 = z w;
              p = ipos head;
              v2 = iv head;
              z2 = iz head
          in if p = wrap64 (wrap64 (ts - N w) + 1) then wrap64 (wrap64 (total w - z2) + v2)
             else if p = wrap64 (ts - N w) then wrap64 (total w - z2)
             else if ts = pos w then wrap64 (total w - z w)
             else if fast_total then fast_estimate (total w) z1 z2 v2
             else if ts < last_ts w
               then wrap64 (total w
                    - wrap64 (sum_list (map iv
                        (filter (\<lambda>item. ipos item \<le> wrap64 (ts - (start w smod M w)))
                                (rev (L w))))))
               else wrap64 (sum_list (map iv
                      (filter (\<lambda>item. ipos item > wrap64 (wrap64 (ts - start w) - (N w smod M w)))
                              (L w))))))"

subsection \<open>wave.c: the insert\<close>

datatype status = REDIS_OK | REDIS_ERR

text \<open>Step 1 of \<open>waveSet\<close>: a timestamp later than \<open>start\<close> and \<open>last\<close> moves \<open>pos\<close>.\<close>

definition advancePos :: "wave \<Rightarrow> int \<Rightarrow> wave" where
  "advancePos w ts =
     (if ts > start w \<and> ts > last_ts w
      then w\<lparr>pos := wrap64 (ts - start w) smod M w, last_ts := ts\<rparr>
      else w)"

text \<open>
  Step 2 of \<open>waveSet\<close>, the loop that expires the head of \<open>L\<close> while its position is at
  most \<open>bound = w->pos - w->N\<close>. Arguments: the scalar \<open>w->z\<close>, the array of level queues
  and \<open>L\<close>. The queue searched is the one of the level of \<open>(item->z, 0)\<close>; its first node
  with the three fields of the item is deleted, if there is one.
\<close>

fun expireLoop ::
  "64 word \<Rightarrow> nat \<Rightarrow> int \<Rightarrow> int \<Rightarrow> waveitem list list \<Rightarrow> waveitem list
     \<Rightarrow> error + (int \<times> waveitem list list \<times> waveitem list)" where
  "expireLoop ninf num_levels bound zw qs [] = Inr (zw, qs, [])"
| "expireLoop ninf num_levels bound zw qs (item # rest) =
     (if ipos item \<le> bound
      then (let j = waveComputeTotalLevel ninf (iz item) 0 num_levels
            in if j < length qs
               then expireLoop ninf num_levels bound (iz item)
                      (qs[j := remove1 item (qs ! j)]) rest
               else Inl OutOfBounds)
      else Inr (zw, qs, item # rest))"

text \<open>Step 2 of \<open>waveSet\<close> on the wave.\<close>

definition expireOld :: "64 word \<Rightarrow> nat \<Rightarrow> wave \<Rightarrow> error + wave" where
  "expireOld ninf num_levels w =
     (case expireLoop ninf num_levels (wrap64 (pos w - N w)) (z w) (l w) (L w) of
        Inl err \<Rightarrow> Inl err
      | Inr (zw, qs, ls) \<Rightarrow> Inr (w\<lparr>z := zw, l := qs, L := ls\<rparr>))"

text \<open>Step 3 (b): if the level \<open>j\<close> queue is longer than \<open>waveLevelMaxPositions\<close>, its tail
  is deleted, and so is the first node of \<open>L\<close> with the same three fields.\<close>

definition evictTail ::
  "nat \<Rightarrow> nat \<Rightarrow> waveitem list list \<Rightarrow> waveitem list \<Rightarrow> waveitem list list \<times> waveitem list" where
  "evictTail maxpos j qs ls =
     (if length (qs ! j) > maxpos
      then (qs[j := butlast (qs ! j)], remove1 (last (qs ! j)) ls)
      else (qs, ls))"

text \<open>Step 3 of \<open>waveSet\<close>: the level, the running total, the eviction and the new triple.
  \<open>alloc\<close> tells whether the \<open>zmalloc\<close> of \<open>waveitemCreate\<close> succeeds; when it does not,
  the function returns \<open>REDIS_ERR\<close> after the steps before it.\<close>

definition admit :: "64 word \<Rightarrow> nat \<Rightarrow> bool \<Rightarrow> wave \<Rightarrow> int \<Rightarrow> error + (status \<times> wave)" where
  "admit ninf num_levels alloc w v' =
     (let j = waveComputeTotalLevel ninf (total w) v' num_levels;
          w3 = w\<lparr>total := wrap64 (total w + v')\<rparr>
      in if j < length (l w3)
         then (let (qs, ls) = evictTail (waveLevelMaxPositions (E w3)) j (l w3) (L w3);
                   new = waveitemCreate (pos w3) v' (total w3 smod M w3)
               in if alloc
                  then Inr (REDIS_OK, w3\<lparr>l := qs[j := new # qs ! j], L := ls @ [new]\<rparr>)
                  else Inr (REDIS_ERR, w3\<lparr>l := qs, L := ls\<rparr>))
         else Inl OutOfBounds)"

definition waveSet ::
  "(int \<Rightarrow> rat \<Rightarrow> int \<Rightarrow> nat) \<Rightarrow> 64 word \<Rightarrow> bool \<Rightarrow> wave \<Rightarrow> int \<Rightarrow> int
     \<Rightarrow> error + (status \<times> wave)" where
  "waveSet ceil_log ninf alloc w v' ts =
     (if v' \<le> 0 then Inr (REDIS_ERR, w)
      else if ts = 0 then Inr (REDIS_ERR, w)
      else if ts < start w then Inr (REDIS_OK, w)
      else case waveNumLevels ceil_log w of
        Inl err \<Rightarrow> Inl err
      | Inr num_levels \<Rightarrow>
         (case expireOld ninf num_levels (advancePos w ts) of
            Inl err \<Rightarrow> Inl err
          | Inr w2 \<Rightarrow> admit ninf num_levels alloc w2 v'))"

subsection \<open>wave.c: the check of the increment in the command\<close>

text \<open>\<open>wvincrbyCommand\<close> from the comparison of the increment with \<open>w->R\<close> to the reply,
  on the wave found or created before; the parsing of the arguments, the resize and the
  key expiry come before and after and are not modelled.\<close>

datatype reply = TooBigErr | OomErr | Total int

definition wvincrbyCommand_incr ::
  "(int \<Rightarrow> rat \<Rightarrow> int \<Rightarrow> nat) \<Rightarrow> 64 word \<Rightarrow> bool \<Rightarrow> wave \<Rightarrow> int \<Rightarrow> int
     \<Rightarrow> error + (reply \<times> wave)" where
  "wvincrbyCommand_incr ceil_log ninf alloc w incr ts =
     (if incr > R w then Inr (TooBigErr, w)
      else if incr > 0
        then (case waveSet ceil_log ninf alloc w incr ts of
                Inl err \<Rightarrow> Inl err
              | Inr (REDIS_ERR, w') \<Rightarrow> Inr (OomErr, w')
              | Inr (REDIS_OK, w') \<Rightarrow> Inr (Total (waveGet w' ts False), w'))
        else Inr (Total (waveGet w ts False), w))"

subsection \<open>Sequences of operations\<close>

datatype op = Set bool int int | Get int bool | Resize int rat int | Reset int int

fun apply_op :: "(int \<Rightarrow> rat \<Rightarrow> int \<Rightarrow> nat) \<Rightarrow> 64 word \<Rightarrow> wave \<Rightarrow> op \<Rightarrow> error + wave" where
  "apply_op ceil_log ninf w (Set alloc v' ts) =
     (case waveSet ceil_log ninf alloc w v' ts of Inl err \<Rightarrow> Inl err | Inr (st, w') \<Rightarrow> Inr w')"
| "apply_op ceil_log ninf w (Get ts fast_total) = Inr w"
| "apply_op ceil_log ninf w (Resize n e r) = waveResize ceil_log w n e r"
| "apply_op ceil_log ninf w (Reset now1 now2) = waveReset ceil_log now1 now2 w"

fun apply_ops :: "(int \<Rightarrow> rat \<Rightarrow> int \<Rightarrow> nat) \<Rightarrow> 64 word \<Rightarrow> wave \<Rightarrow> op list \<Rightarrow> error + wave" where
  "apply_ops ceil_log ninf w [] = Inr w"
| "apply_ops ceil_log ninf w (x # xs) =
     (case apply_op ceil_log ninf w x of
        Inl err \<Rightarrow> Inl err
      | Inr w' \<Rightarrow> apply_ops ceil_log ninf w' xs)"

text \<open>A wave built by \<open>waveCreate\<close> and then taken through a sequence of operations.\<close>

definition create_and_apply ::
  "(int \<Rightarrow> rat \<Rightarrow> int \<Rightarrow> nat) \<Rightarrow> 64 word \<Rightarrow> int \<Rightarrow> int \<Rightarrow> rat \<Rightarrow> int \<Rightarrow> int \<Rightarrow> int
     \<Rightarrow> op list \<Rightarrow> error + wave" where
  "create_and_apply ceil_log ninf now n e r ts ex xs =
     (case waveCreate ceil_log now n e r ts ex of
        Inl err \<Rightarrow> Inl err
      | Inr w \<Rightarrow> apply_ops ceil_log ninf w xs)"

text \<open>\<open>ops_within P\<close>: the condition \<open>P\<close> holds of every operation of the sequence and the
  wave it is applied to.\<close>

fun ops_within ::
  "(wave \<Rightarrow> op \<Rightarrow> bool) \<Rightarrow> (int \<Rightarrow> rat \<Rightarrow> int \<Rightarrow> nat) \<Rightarrow> 64 word \<Rightarrow> wave \<Rightarrow> op list \<Rightarrow> bool" where
  "ops_within P ceil_log ninf w [] = True"
| "ops_within P ceil_log ninf w (x # xs) =
     (P w x \<and> (case apply_op ceil_log ninf w x of
                 Inl err \<Rightarrow> True
               | Inr w' \<Rightarrow> ops_within P ceil_log ninf w' xs))"

text \<open>The position \<open>ts - start\<close> of an insert is below the modulus: \<open>pos\<close> does not wrap.\<close>

fun pos_below_modulus :: "wave \<Rightarrow> op \<Rightarrow> bool" where
  "pos_below_modulus w (Set alloc v' ts) = (ts - start w < M w)"
| "pos_below_modulus w x = True"

text \<open>Where \<open>waveSet\<close> goes on to the insert (the value is positive and the timestamp is
  set and not before \<open>start\<close>), the running total after it is below the modulus: the
  partial sum stored in the new triple is the running total itself.\<close>

fun total_below_modulus :: "wave \<Rightarrow> op \<Rightarrow> bool" where
  "total_below_modulus w (Set alloc v' ts) =
     (0 < v' \<and> ts \<noteq> 0 \<and> start w \<le> ts \<longrightarrow> total w + v' < M w)"
| "total_below_modulus w x = True"

text \<open>Where \<open>waveSet\<close> goes on to the insert, the running total after it is below \<open>2^62\<close>:
  the running total, twice the running total and one and a half times the running total
  are in the range of \<open>long long\<close>.\<close>

fun total_below_2p62 :: "wave \<Rightarrow> op \<Rightarrow> bool" where
  "total_below_2p62 w (Set alloc v' ts) =
     (0 < v' \<and> ts \<noteq> 0 \<and> start w \<le> ts \<longrightarrow> total w + v' < 2 ^ 62)"
| "total_below_2p62 w x = True"

text \<open>The state in which the operations run without leaving the array of level queues:
  the assertion of \<open>waveNumLevels\<close> holds, the array has at least as many queues as there
  are levels, and the queues beyond the levels (left by a resize to fewer levels) are
  empty.\<close>

definition wave_ok :: "(int \<Rightarrow> rat \<Rightarrow> int \<Rightarrow> nat) \<Rightarrow> wave \<Rightarrow> bool" where
  "wave_ok ceil_log w =
     (case waveNumLevels ceil_log w of
        Inl err \<Rightarrow> False
      | Inr num_levels \<Rightarrow>
          num_levels \<le> length (l w) \<and> list_all (\<lambda>q. q = []) (drop num_levels (l w)))"

text \<open>The running total is below \<open>2^62\<close>, the scalar \<open>z\<close> and the values and partial sums
  of the triples of \<open>L\<close> lie between 0 and the running total, and the values of \<open>L\<close> add
  up to at most the running total.\<close>

definition sums_in_range :: "wave \<Rightarrow> bool" where
  "sums_in_range w =
     (0 < M w \<and> 0 \<le> z w \<and> z w \<le> total w \<and> total w < 2 ^ 62
      \<and> list_all (\<lambda>i. 0 < iv i \<and> iv i \<le> total w \<and> 0 \<le> iz i \<and> iz i \<le> total w) (L w)
      \<and> sum_list (map iv (L w)) \<le> total w)"

text \<open>The partial sum of every triple of \<open>L\<close> is at least its value: it has not been
  reduced modulo \<open>M\<close>.\<close>

definition sums_unreduced :: "wave \<Rightarrow> bool" where
  "sums_unreduced w = list_all (\<lambda>i. iv i \<le> iz i) (L w)"

text \<open>The positions of \<open>L\<close> ascend, ties allowed, up to the current position.\<close>

definition positions_ordered :: "wave \<Rightarrow> bool" where
  "positions_ordered w =
     (0 < M w \<and> M w \<le> LLONG_MAX
      \<and> sorted (map ipos (L w)) \<and> list_all (\<lambda>i. ipos i \<le> pos w) (L w)
      \<and> pos w \<le> max 0 (last_ts w - start w))"

section \<open>Properties\<close>

subsection \<open>Arithmetic of the model\<close>

lemma smod_nonneg: "0 \<le> a \<Longrightarrow> 0 < b \<Longrightarrow> a smod b = a mod (b::int)"
  by (cases "a = 0") (simp_all add: signed_modulo_int_def sgn_if)

lemma sdiv_nonneg: "0 \<le> a \<Longrightarrow> 0 < b \<Longrightarrow> a sdiv b = a div (b::int)"
  by (cases "a = 0") (simp_all add: signed_divide_int_def sgn_if)

lemma wrap64_id: "- (2 ^ 63) \<le> x \<Longrightarrow> x < 2 ^ 63 \<Longrightarrow> wrap64 x = x"
  by (simp add: wrap64_def)

lemma wrap64_0 [simp]: "wrap64 0 = 0"
  by (simp add: wrap64_def)

lemma wrap64_double_big:
  assumes "2 ^ 62 \<le> r" "r \<le> LLONG_MAX"
  shows "wrap64 (2 * r) = 2 * r - 2 ^ 64"
proof -
  have "(2 * r + 2 ^ 63) mod 2 ^ 64 = (2 * r + 2 ^ 63 - 2 ^ 64) mod 2 ^ 64"
    by (metis minus_mod_self2)
  also have "\<dots> = 2 * r + 2 ^ 63 - 2 ^ 64"
    using assms by (intro mod_pos_pos_trivial) (simp_all add: LLONG_MAX_def)
  finally show ?thesis by (simp add: wrap64_def)
qed

lemma int_div_less_iff:
  assumes "0 < (d::int)"
  shows "m div d < n \<longleftrightarrow> m < n * d"
proof
  assume "m div d < n"
  then have "m div d + 1 \<le> n" by simp
  then have "(m div d + 1) * d \<le> n * d" using assms by (intro mult_right_mono) auto
  moreover have "m < (m div d + 1) * d"
  proof -
    have "(m div d + 1) * d = d * (m div d) + d" by (simp add: algebra_simps)
    moreover have "d * (m div d) + m mod d = m" by simp
    moreover have "m mod d < d" using assms by simp
    ultimately show ?thesis by linarith
  qed
  ultimately show "m < n * d" by simp
next
  assume lt: "m < n * d"
  show "m div d < n"
  proof (rule ccontr)
    assume "\<not> m div d < n"
    then have "n \<le> m div d" by simp
    then have "n * d \<le> m div d * d" using assms by (intro mult_right_mono) auto
    also have "\<dots> \<le> m"
    proof -
      have "m div d * d + m mod d = m" by simp
      moreover have "0 \<le> m mod d" using assms by simp
      ultimately show ?thesis by linarith
    qed
    finally show False using lt by simp
  qed
qed

lemma sdiv_2_bounds:
  fixes b :: int
  assumes "- (2 * k) \<le> b" "b \<le> 2 * t" "0 \<le> k" "0 \<le> t"
  shows "- k \<le> b sdiv 2 \<and> b sdiv 2 \<le> t"
proof (cases "0 \<le> b")
  case True
  then have "b sdiv 2 = b div 2" by (simp add: sdiv_nonneg)
  moreover have "0 \<le> b div 2" using True by simp
  moreover have "b div 2 \<le> t" using assms(2) by linarith
  ultimately show ?thesis using assms(3) by simp
next
  case False
  then have "b sdiv 2 = - ((- b) div 2)"
    by (simp add: signed_divide_int_def sgn_if)
  moreover have "(- b) div 2 \<le> k" using assms(1) by linarith
  moreover have "0 \<le> (- b) div 2" using False by simp
  ultimately show ?thesis using assms(4) by simp
qed

text \<open>The rounding to double: the binade encloses its argument, the rounding is
  monotone and odd, and it leaves every integer of magnitude at most \<open>2^53\<close> as it is.\<close>

lemma floor_lb_nonneg: "0 \<le> floor_lb n"
  by (induction n rule: floor_lb.induct) (simp add: floor_lb.simps)

lemma ceil_lb_nonneg: "0 \<le> ceil_lb n"
  by (induction n rule: ceil_lb.induct) (simp add: ceil_lb.simps)

lemma floor_lb_bounds: "0 < n \<Longrightarrow> 2 ^ nat (floor_lb n) \<le> n \<and> n < 2 * 2 ^ nat (floor_lb n)"
proof (induction n rule: floor_lb.induct)
  case (1 n)
  show ?case
  proof (cases "n < 2")
    case True
    with 1(2) show ?thesis by (simp add: floor_lb.simps[of n])
  next
    case False
    then have "0 < n div 2" by simp
    from 1(1)[OF False this] have a: "2 ^ nat (floor_lb (n div 2)) \<le> n div 2"
      "n div 2 < 2 * 2 ^ nat (floor_lb (n div 2))" by simp_all
    have s: "nat (floor_lb (n div 2) + 1) = Suc (nat (floor_lb (n div 2)))"
      using floor_lb_nonneg[of "n div 2"] by simp
    from a False show ?thesis by (simp add: floor_lb.simps[of n] s) linarith
  qed
qed

lemma ceil_lb_bounds:
  "1 < n \<Longrightarrow> 2 ^ nat (ceil_lb n - 1) < n \<and> n \<le> 2 ^ nat (ceil_lb n) \<and> 0 < ceil_lb n"
proof (induction n rule: ceil_lb.induct)
  case (1 n)
  then have n: "\<not> n \<le> 1" by simp
  show ?case
  proof (cases "n = 2")
    case True
    then show ?thesis by (simp add: ceil_lb.simps[of 2] ceil_lb.simps[of 1])
  next
    case False
    with 1(2) have "1 < (n + 1) div 2" by simp
    from 1(1)[OF n this] have a: "2 ^ nat (ceil_lb ((n + 1) div 2) - 1) < (n + 1) div 2"
      "(n + 1) div 2 \<le> 2 ^ nat (ceil_lb ((n + 1) div 2))" "0 < ceil_lb ((n + 1) div 2)" by simp_all
    define k where "k = ceil_lb ((n + 1) div 2)"
    have s: "nat k = Suc (nat (k - 1))" using a(3) by (simp add: k_def)
    from a have b: "2 ^ nat (k - 1) < (n + 1) div 2" "(n + 1) div 2 \<le> 2 ^ nat k"
      by (simp_all add: k_def)
    have "(2::int) ^ nat k = 2 * 2 ^ nat (k - 1)" by (subst s) simp
    with b have c: "2 * 2 ^ nat (k - 1) < n" "n \<le> 2 * 2 ^ nat k" by linarith+
    have s2: "nat (k + 1) = Suc (nat k)" using a(3) by (simp add: k_def)
    have "ceil_lb n = k + 1" using n by (simp add: ceil_lb.simps[of n] k_def)
    moreover have "2 ^ nat k < n" using c(1) by (subst s) simp
    moreover have "n \<le> 2 ^ nat (k + 1)" using c(2) by (subst s2) simp
    moreover have "0 < k + 1" using a(3) by (simp add: k_def)
    ultimately show ?thesis by simp
  qed
qed

lemma binade_bounds:
  assumes "0 < x"
  shows "power_int 2 (binade x) \<le> x \<and> x < power_int 2 (binade x + 1)"
proof (cases "1 \<le> x")
  case True
  then have n: "0 < \<lfloor>x\<rfloor>" by simp
  define k where "k = nat (floor_lb \<lfloor>x\<rfloor>)"
  from floor_lb_bounds[OF n] have b: "2 ^ k \<le> \<lfloor>x\<rfloor>" "\<lfloor>x\<rfloor> < 2 * 2 ^ k"
    by (simp_all add: k_def)
  have e: "binade x = int k" using True floor_lb_nonneg[of "\<lfloor>x\<rfloor>"] by (simp add: binade_def k_def)
  have "(of_int (2 ^ k) :: rat) \<le> of_int \<lfloor>x\<rfloor>" using b(1) by (simp only: of_int_le_iff)
  then have l: "(2 :: rat) ^ k \<le> x" by (simp add: le_floor_iff)
  have "\<lfloor>x\<rfloor> + 1 \<le> 2 * 2 ^ k" using b(2) by simp
  then have "(of_int (\<lfloor>x\<rfloor> + 1) :: rat) \<le> of_int (2 * 2 ^ k)" by (simp only: of_int_le_iff)
  moreover have "x < of_int (\<lfloor>x\<rfloor> + 1)" by linarith
  ultimately have u: "x < 2 * 2 ^ k" by simp
  have p: "power_int (2::rat) (int k + 1) = 2 * 2 ^ k"
    by (simp add: power_int_add)
  from l u show ?thesis by (simp add: e p)
next
  case False
  with assms have x: "0 < x" "x < 1" by simp_all
  then have t: "1 < 1 / x" by simp
  then have n: "1 < \<lceil>1 / x\<rceil>" by (simp add: less_ceiling_iff)
  define c where "c = ceil_lb \<lceil>1 / x\<rceil>"
  from ceil_lb_bounds[OF n] have b: "2 ^ nat (c - 1) < \<lceil>1 / x\<rceil>" "\<lceil>1 / x\<rceil> \<le> 2 ^ nat c" "0 < c"
    by (simp_all add: c_def)
  have e: "binade x = - c" using False by (simp add: binade_def c_def)
  have "1 / x \<le> of_int (2 ^ nat c)" using b(2) by (simp only: ceiling_le_iff)
  then have "1 / x \<le> 2 ^ nat c" by simp
  then have "1 \<le> 2 ^ nat c * x" using x(1) by (simp add: field_simps)
  then have l: "1 / 2 ^ nat c \<le> x" by (simp add: field_simps)
  have "of_int (2 ^ nat (c - 1)) < 1 / x" using b(1) by (simp only: less_ceiling_iff)
  then have "2 ^ nat (c - 1) < 1 / x" by simp
  then have "2 ^ nat (c - 1) * x < 1" using x(1) by (simp add: field_simps)
  then have u: "x < 1 / 2 ^ nat (c - 1)" by (simp add: field_simps)
  have p1: "power_int (2::rat) (- c) = 1 / 2 ^ nat c"
    using b(3) by (simp add: power_int_def field_simps)
  have p2: "power_int (2::rat) (1 - c) = 1 / 2 ^ nat (c - 1)"
  proof -
    have "1 - c = - (c - 1)" by simp
    moreover have "power_int (2::rat) (- (c - 1)) = 1 / 2 ^ nat (c - 1)"
      using b(3) by (cases "c = 1") (simp_all add: power_int_def field_simps)
    ultimately show ?thesis by (simp only:)
  qed
  have e1: "binade x + 1 = 1 - c" by (simp add: e)
  have "power_int 2 (binade x) \<le> x" using l by (simp only: e p1)
  moreover have "x < power_int 2 (binade x + 1)" using u by (simp only: e1 p2)
  ultimately show ?thesis by (rule conjI)
qed

lemma binade_mono:
  assumes "0 < x" "x \<le> y"
  shows "binade x \<le> binade y"
proof (rule ccontr)
  assume "\<not> binade x \<le> binade y"
  then have "binade y + 1 \<le> binade x" by simp
  then have "power_int (2::rat) (binade y + 1) \<le> power_int 2 (binade x)"
    by (intro power_int_increasing) simp_all
  moreover from binade_bounds[OF assms(1)] have "power_int 2 (binade x) \<le> x" by simp
  moreover from assms have "0 < y" by simp
  from binade_bounds[OF this] have "y < power_int 2 (binade y + 1)" by simp
  ultimately show False using assms(2) by linarith
qed

lemma round_even_of_int [simp]: "round_even (of_int n) = n"
  by (simp add: round_even_def)

lemma round_even_range: "\<lfloor>x\<rfloor> \<le> round_even x \<and> round_even x \<le> \<lfloor>x\<rfloor> + 1"
  by (simp add: round_even_def Let_def)

lemma round_even_mono:
  assumes "x \<le> y"
  shows "round_even x \<le> round_even y"
proof (cases "\<lfloor>x\<rfloor> = \<lfloor>y\<rfloor>")
  case True
  from assms have "x - of_int \<lfloor>x\<rfloor> \<le> y - of_int \<lfloor>x\<rfloor>" by simp
  then show ?thesis by (auto simp: round_even_def Let_def True[symmetric])
next
  case False
  from assms have "\<lfloor>x\<rfloor> \<le> \<lfloor>y\<rfloor>" by (rule floor_mono)
  with False have "\<lfloor>x\<rfloor> + 1 \<le> \<lfloor>y\<rfloor>" by simp
  with round_even_range[of x] round_even_range[of y] show ?thesis by linarith
qed

lemma to_double_minus: "to_double (- x) = - to_double x"
  by (simp add: to_double_def Let_def sgn_minus)

lemma to_double_0 [simp]: "to_double 0 = 0"
  by (simp add: to_double_def)

lemma to_double_pos:
  assumes "0 < x"
  shows "to_double x = of_int (round_even (x / power_int 2 (binade x - 52))) * power_int 2 (binade x - 52)"
  using assms by (simp add: to_double_def Let_def)

lemma to_double_bounds:
  assumes "0 < x"
  shows "power_int 2 (binade x) \<le> to_double x \<and> to_double x \<le> power_int 2 (binade x + 1)"
proof -
  define u :: rat where "u = power_int 2 (binade x - 52)"
  have u0: "0 < u" by (simp add: u_def)
  have p: "power_int (2::rat) (binade x) = 2 ^ 52 * u"
    "power_int (2::rat) (binade x + 1) = 2 ^ 53 * u"
    by (simp_all add: u_def power_int_diff power_int_add)
  from binade_bounds[OF assms] have "2 ^ 52 * u \<le> x" "x < 2 ^ 53 * u" by (simp_all add: p)
  then have q: "2 ^ 52 \<le> x / u" "x / u \<le> 2 ^ 53" using u0 by (simp_all add: field_simps)
  have "round_even (of_int (2 ^ 52)) \<le> round_even (x / u)"
    using q(1) by (intro round_even_mono) simp
  then have r1: "2 ^ 52 \<le> round_even (x / u)" by (simp only: round_even_of_int)
  have "round_even (x / u) \<le> round_even (of_int (2 ^ 53))"
    using q(2) by (intro round_even_mono) simp
  then have r2: "round_even (x / u) \<le> 2 ^ 53" by (simp only: round_even_of_int)
  have "(of_int (2 ^ 52) :: rat) \<le> of_int (round_even (x / u))" using r1 by (simp only: of_int_le_iff)
  then have a: "2 ^ 52 * u \<le> of_int (round_even (x / u)) * u" using u0 by simp
  have "(of_int (round_even (x / u)) :: rat) \<le> of_int (2 ^ 53)" using r2 by (simp only: of_int_le_iff)
  then have b: "of_int (round_even (x / u)) * u \<le> 2 ^ 53 * u" using u0 by simp
  from a b show ?thesis by (simp add: to_double_pos[OF assms] p u_def[symmetric])
qed

lemma to_double_pos_mono:
  assumes "0 < x" "x \<le> y"
  shows "to_double x \<le> to_double y"
proof (cases "binade x = binade y")
  case True
  from assms have y: "0 < y" by simp
  define u :: rat where "u = power_int 2 (binade x - 52)"
  have u0: "0 < u" by (simp add: u_def)
  from assms(2) u0 have "x / u \<le> y / u" by (simp add: divide_right_mono)
  then have "round_even (x / u) \<le> round_even (y / u)" by (rule round_even_mono)
  then have "(of_int (round_even (x / u)) :: rat) \<le> of_int (round_even (y / u))"
    by (simp only: of_int_le_iff)
  then have "of_int (round_even (x / u)) * u \<le> of_int (round_even (y / u)) * u" using u0 by simp
  then show ?thesis by (simp add: to_double_pos[OF assms(1)] to_double_pos[OF y] True[symmetric] u_def)
next
  case False
  from assms have y: "0 < y" by simp
  from binade_mono[OF assms] False have "binade x + 1 \<le> binade y" by simp
  then have "power_int (2::rat) (binade x + 1) \<le> power_int 2 (binade y)"
    by (intro power_int_increasing) simp_all
  with to_double_bounds[OF assms(1)] to_double_bounds[OF y] show ?thesis by linarith
qed

lemma to_double_pos_pos: "0 < x \<Longrightarrow> 0 < to_double x"
proof -
  assume a: "0 < x"
  have "0 < power_int (2::rat) (binade x)" by simp
  with to_double_bounds[OF a] show ?thesis by linarith
qed

lemma to_double_mono:
  assumes "x \<le> y"
  shows "to_double x \<le> to_double y"
proof -
  consider "0 < x" | "x = 0" | "x < 0 \<and> 0 \<le> y" | "y < 0" by linarith
  then show ?thesis
  proof cases
    case 1 from to_double_pos_mono[OF 1 assms] show ?thesis .
  next
    case 2
    show ?thesis
    proof (cases "y = 0")
      case True with 2 show ?thesis by simp
    next
      case False
      with 2 assms have "0 < y" by simp
      from to_double_pos_pos[OF this] 2 show ?thesis by simp
    qed
  next
    case 3
    then have "0 < - x" by simp
    from to_double_pos_pos[OF this] have a: "to_double x < 0" by (simp add: to_double_minus)
    have "0 \<le> to_double y"
    proof (cases "y = 0")
      case True then show ?thesis by simp
    next
      case False
      with 3 have "0 < y" by simp
      from to_double_pos_pos[OF this] show ?thesis by simp
    qed
    with a show ?thesis by simp
  next
    case 4
    with assms have "0 < - y" "- y \<le> - x" by simp_all
    from to_double_pos_mono[OF this] show ?thesis by (simp add: to_double_minus)
  qed
qed

lemma to_double_of_nat_small:
  assumes "0 < n" "n \<le> 2 ^ 53"
  shows "to_double (of_int n) = of_int n"
proof -
  have x: "(0::rat) < of_int n" using assms by simp
  define e where "e = binade (of_int n)"
  from binade_bounds[OF x] have b: "power_int 2 e \<le> (of_int n :: rat)" by (simp add: e_def)
  have "(of_int n :: rat) \<le> of_int (2 ^ 53)" using assms(2) by (simp only: of_int_le_iff)
  moreover have "(of_int (2 ^ 53) :: rat) = power_int 2 53" by simp
  ultimately have "power_int (2::rat) e \<le> power_int 2 53" using b by linarith
  then have e53: "e \<le> 53" by (rule power_int_le_imp_le_exp[rotated]) simp_all
  have e0: "0 \<le> e" using assms(1) floor_lb_nonneg[of n] by (simp add: e_def binade_def)
  show ?thesis
  proof (cases "e = 53")
    case True
    with b have "(of_int (2 ^ 53) :: rat) \<le> of_int n" by simp
    then have "2 ^ 53 \<le> n" by (simp only: of_int_le_iff)
    with assms have n: "n = 2 ^ 53" by simp
    have "(of_int n :: rat) / power_int 2 (e - 52) = of_int (2 ^ 52)" by (simp add: True n)
    then show ?thesis by (simp only: to_double_pos[OF x] e_def[symmetric] round_even_of_int) (simp add: True n)
  next
    case False
    with e53 have le: "e \<le> 52" by simp
    define k where "k = nat (52 - e)"
    have u: "power_int (2::rat) (e - 52) = 1 / 2 ^ k"
    proof -
      have "e - 52 = - int k" using le by (simp add: k_def)
      then show ?thesis by (simp add: power_int_minus_divide)
    qed
    have "(of_int n :: rat) / power_int 2 (e - 52) = of_int (n * 2 ^ k)" by (simp add: u)
    then show ?thesis by (simp only: to_double_pos[OF x] e_def[symmetric] round_even_of_int) (simp add: u)
  qed
qed

lemma to_double_of_int:
  assumes "\<bar>n\<bar> \<le> 2 ^ 53"
  shows "to_double (of_int n) = of_int n"
proof -
  consider "0 < n" | "n = 0" | "n < 0" by linarith
  then show ?thesis
  proof cases
    case 1 with assms show ?thesis by (intro to_double_of_nat_small) simp_all
  next
    case 2 then show ?thesis by simp
  next
    case 3
    with assms have "0 < - n" "- n \<le> 2 ^ 53" by simp_all
    from to_double_of_nat_small[OF this] show ?thesis by (simp add: to_double_minus)
  qed
qed

lemma to_double_numeral:
  "numeral k \<le> (2 ^ 53 :: int) \<Longrightarrow> to_double (numeral k) = numeral k"
  using to_double_of_int[of "numeral k"] by simp

lemma to_double_1 [simp]: "to_double 1 = 1"
  using to_double_of_int[of 1] by simp

lemma to_double_beyond_2p53:
  "to_double 9007199254740995 = 9007199254740996"
  "to_double 9007199254740996 = 9007199254740996"
  by code_simp+

lemma to_double_powers:
  "to_double (2 ^ 62) = 2 ^ 62"
  "to_double (2 ^ 61) = 2 ^ 61"
  "to_double (2 ^ 62 + 2 ^ 61) = 2 ^ 62 + 2 ^ 61"
  by code_simp+

lemma ll_of_double_nonneg: "0 \<le> d \<Longrightarrow> d < 2 ^ 63 \<Longrightarrow> ll_of_double d = \<lfloor>d\<rfloor>"
proof -
  assume a: "0 \<le> d" "d < 2 ^ 63"
  then have "0 \<le> \<lfloor>d\<rfloor>" by simp
  moreover have "\<lfloor>d\<rfloor> < 2 ^ 63" using a(2) by (simp add: floor_less_iff)
  ultimately show ?thesis using a(1) by (simp add: ll_of_double_def)
qed

lemma waveLevelMaxPositions_half: "waveLevelMaxPositions (1 / 2) = 3"
  by (simp add: waveLevelMaxPositions_def to_double_numeral)

subsection \<open>The level selector\<close>

lemma unat_less_of_nat: "(j :: 64 word) < of_nat n \<Longrightarrow> unat j < n"
proof -
  assume "j < of_nat n"
  then have "unat j < unat (of_nat n :: 64 word)" by (simp add: word_less_nat_alt)
  also have "\<dots> \<le> n" by (simp add: unat_of_nat)
  finally show ?thesis .
qed

lemma waveComputeTotalLevel_less: "1 \<le> nl \<Longrightarrow> waveComputeTotalLevel ninf t v' nl < nl"
  by (auto simp: waveComputeTotalLevel_def Let_def not_le intro: unat_less_of_nat)

lemma waveNumLevels_Inr: "waveNumLevels cl w = Inr nl \<Longrightarrow> 1 \<le> nl \<and> 0 < R w"
  by (auto simp: waveNumLevels_def Let_def split: if_splits)

lemma waveNumLevels_cong:
  "N w' = N w \<Longrightarrow> E w' = E w \<Longrightarrow> R w' = R w \<Longrightarrow> waveNumLevels cl w' = waveNumLevels cl w"
  by (simp add: waveNumLevels_def)

lemmas level_steps = waveComputeTotalLevel_def floor_log_def exp_ceilings_def word_le_nat_alt

text \<open>The table of \<open>floor_log\<close> is right: for every \<open>h\<close> other than 0, \<open>floor_log\<close> is the
  integer part of the natural logarithm of \<open>h\<close>.\<close>

lemma e_sum_eq: "(\<Sum>m\<le>n. 1 / fact m) = real_of_int (e_sum n) / fact n"
proof (induction n)
  case 0
  then show ?case by simp
next
  case (Suc n)
  have "real_of_int (e_sum n) / fact n
        = (real (Suc n) * real_of_int (e_sum n)) / (real (Suc n) * fact n)"
    by simp
  also have "\<dots> = (real (Suc n) * real_of_int (e_sum n)) / fact (Suc n)"
    by (simp only: fact_Suc of_nat_mult)
  finally have "(\<Sum>m\<le>Suc n. 1 / fact m)
        = (real (Suc n) * real_of_int (e_sum n)) / fact (Suc n) + 1 / fact (Suc n)"
    using Suc by simp
  also have "\<dots> = (real (Suc n) * real_of_int (e_sum n) + 1) / fact (Suc n)"
    by (simp only: add_divide_distrib)
  finally show ?case by simp
qed

lemma exp_1_bounds:
  "real_of_int e_lower / real_of_int exp_scale \<le> exp 1
   \<and> exp 1 \<le> real_of_int e_upper / real_of_int exp_scale"
proof -
  obtain t :: real where t: "\<bar>t\<bar> \<le> \<bar>1\<bar>"
    and e: "exp 1 = (\<Sum>m<30. (1 ^ m) / fact m) + (exp t / fact 30) * 1 ^ 30"
    using Maclaurin_exp_le[of 1 30] by blast
  have s: "(\<Sum>m<30. (1 ^ m) / fact m) = real_of_int (e_sum 29) / fact 29"
    using e_sum_eq[of 29] by (simp add: lessThan_Suc_atMost[symmetric])
  have v: "e_sum 29 = 24034400959142450300587879489790" by code_simp
  have f29: "fact 29 = (8841761993739701954543616000000 :: real)"
    by (simp add: fact_numeral)
  have f30: "fact 30 = (265252859812191058636308480000000 :: real)"
    by (simp add: fact_numeral)
  have "t \<le> 1" using t by simp
  then have "exp t \<le> exp 1" by simp
  also have "\<dots> \<le> 3" by (rule exp_le)
  finally have r: "0 \<le> exp t / fact 30" "exp t / fact 30 \<le> 3 / fact 30"
    by (simp_all add: divide_right_mono)
  have lo: "real_of_int e_lower / real_of_int exp_scale \<le> real_of_int (e_sum 29) / fact 29"
    unfolding v f29 by (simp add: e_lower_def exp_scale_def)
  have hi: "real_of_int (e_sum 29) / fact 29 + 3 / fact 30
        \<le> real_of_int e_upper / real_of_int exp_scale"
    unfolding v f29 f30 by (simp add: e_upper_def exp_scale_def)
  define q where "q = exp t / fact 30"
  define p where "p = real_of_int (e_sum 29) / fact 29"
  have "exp 1 = p + q" using e s by (simp add: p_def q_def)
  moreover have "0 \<le> q" "q \<le> 3 / fact 30" using r by (simp_all add: q_def)
  moreover have "real_of_int e_lower / real_of_int exp_scale \<le> p"
    "p + 3 / fact 30 \<le> real_of_int e_upper / real_of_int exp_scale"
    using lo hi by (simp_all add: p_def)
  ultimately show ?thesis by linarith
qed

lemma exp_table_step:
  assumes "real_of_int a / real_of_int exp_scale \<le> exp (real k)"
    and "exp (real k) \<le> real_of_int b / real_of_int exp_scale" and "0 \<le> a"
  shows "real_of_int ((a * e_lower) div exp_scale) / real_of_int exp_scale \<le> exp (real (Suc k))
       \<and> exp (real (Suc k)) \<le> real_of_int (- ((- (b * e_upper)) div exp_scale)) / real_of_int exp_scale
       \<and> 0 \<le> (a * e_lower) div exp_scale"
proof -
  let ?S = "real_of_int exp_scale"
  have S: "0 < ?S" by (simp add: exp_scale_def)
  have e: "exp (real (Suc k)) = exp (real k) * exp 1"
    by (simp add: exp_add)
  have el: "0 \<le> real_of_int e_lower / ?S" by (simp add: e_lower_def exp_scale_def)
  have a0: "0 \<le> real_of_int a / ?S" using assms(3) S by simp
  have "real_of_int ((a * e_lower) div exp_scale) = of_int \<lfloor>real_of_int (a * e_lower) / ?S\<rfloor>"
    by (simp only: floor_divide_of_int_eq)
  also have "\<dots> \<le> real_of_int (a * e_lower) / ?S" by (rule of_int_floor_le)
  finally have "real_of_int ((a * e_lower) div exp_scale) \<le> real_of_int (a * e_lower) / ?S" .
  then have "real_of_int ((a * e_lower) div exp_scale) / ?S
      \<le> real_of_int (a * e_lower) / ?S / ?S"
    using S by (intro divide_right_mono) simp_all
  also have "\<dots> = (real_of_int a / ?S) * (real_of_int e_lower / ?S)" by simp
  also have "\<dots> \<le> exp (real k) * exp 1"
    using assms(1) exp_1_bounds a0 el by (intro mult_mono) simp_all
  finally have lo: "real_of_int ((a * e_lower) div exp_scale) / ?S \<le> exp (real (Suc k))"
    by (simp only: e)
  have b0: "0 \<le> real_of_int b / ?S"
    using assms(2) exp_gt_zero[of "real k"] by linarith
  have "exp (real k) * exp 1 \<le> (real_of_int b / ?S) * (real_of_int e_upper / ?S)"
    using assms(2) exp_1_bounds b0 by (intro mult_mono) simp_all
  also have "\<dots> = real_of_int (b * e_upper) / ?S / ?S" by simp
  also have "\<dots> \<le> of_int \<lceil>real_of_int (b * e_upper) / ?S\<rceil> / ?S"
    using S by (intro divide_right_mono) (simp_all add: le_of_int_ceiling)
  also have "\<lceil>real_of_int (b * e_upper) / ?S\<rceil> = - ((- (b * e_upper)) div exp_scale)"
    by (simp only: ceiling_def minus_divide_left of_int_minus[symmetric] floor_divide_of_int_eq)
  finally have hi: "exp (real (Suc k))
      \<le> real_of_int (- ((- (b * e_upper)) div exp_scale)) / ?S"
    by (simp only: e)
  have "0 \<le> (a * e_lower) div exp_scale"
    using assms(3) by (simp add: e_lower_def exp_scale_def pos_imp_zdiv_nonneg_iff)
  with lo hi show ?thesis by simp
qed

lemma exp_table_floor_ln:
  "exp_table_ok a b cs \<Longrightarrow> real_of_int a / real_of_int exp_scale \<le> exp (real k)
   \<Longrightarrow> exp (real k) \<le> real_of_int b / real_of_int exp_scale \<Longrightarrow> 0 \<le> a
   \<Longrightarrow> exp (real k) \<le> real_of_int x \<Longrightarrow> sorted_wrt (<) cs \<Longrightarrow> cs \<noteq> [] \<Longrightarrow> x < last cs
   \<Longrightarrow> \<lfloor>ln (real_of_int x)\<rfloor> = int k + int (length (filter (\<lambda>c. c \<le> x) cs))"
proof (induction cs arbitrary: a b k)
  case Nil
  then show ?case by simp
next
  case (Cons c cs)
  let ?S = "real_of_int exp_scale"
  let ?a = "(a * e_lower) div exp_scale"
  let ?b = "- ((- (b * e_upper)) div exp_scale)"
  have S: "0 < ?S" by (simp add: exp_scale_def)
  from Cons.prems(1) have ca: "(c - 1) * exp_scale < ?a" and cb: "?b < c * exp_scale"
    and ok: "exp_table_ok ?a ?b cs"
    by (simp_all add: Let_def)
  from exp_table_step[OF Cons.prems(2) Cons.prems(3) Cons.prems(4)]
  have lo: "real_of_int ?a / ?S \<le> exp (real (Suc k))"
    and hi: "exp (real (Suc k)) \<le> real_of_int ?b / ?S" and a0: "0 \<le> ?a" by simp_all
  have "real_of_int ((c - 1) * exp_scale) < real_of_int ?a" using ca by (simp only: of_int_less_iff)
  then have "real_of_int (c - 1) * ?S < real_of_int ?a" by (simp only: of_int_mult)
  then have "real_of_int (c - 1) < real_of_int ?a / ?S" by (simp only: pos_less_divide_eq[OF S])
  with lo have below: "real_of_int (c - 1) < exp (real (Suc k))" by simp
  have "real_of_int ?b < real_of_int (c * exp_scale)" using cb by (simp only: of_int_less_iff)
  then have "real_of_int ?b < real_of_int c * ?S" by (simp only: of_int_mult)
  then have "real_of_int ?b / ?S < real_of_int c" by (simp only: pos_divide_less_eq[OF S])
  with hi have above: "exp (real (Suc k)) < real_of_int c" by simp
  have xpos: "0 < real_of_int x"
    using Cons.prems(5) exp_gt_zero[of "real k"] by linarith
  show ?case
  proof (cases "c \<le> x")
    case True
    then have "real_of_int c \<le> real_of_int x" by simp
    with above have ex: "exp (real (Suc k)) \<le> real_of_int x" by simp
    have ne: "cs \<noteq> []"
    proof
      assume "cs = []"
      with Cons.prems(8) have "x < c" by simp
      with True show False by simp
    qed
    with Cons.prems(8) have l: "x < last cs" by simp
    from Cons.prems(6) have srt: "sorted_wrt (<) cs" by simp
    from Cons.IH[OF ok lo hi a0 ex srt ne l] True show ?thesis by simp
  next
    case False
    then have "x \<le> c - 1" by simp
    then have "real_of_int x \<le> real_of_int (c - 1)" by (simp only: of_int_le_iff)
    with below have "real_of_int x < exp (real (Suc k))" by simp
    then have "ln (real_of_int x) < ln (exp (real (Suc k)))"
      using xpos by (subst ln_less_cancel_iff) simp_all
    then have "ln (real_of_int x) < real (Suc k)"
      by (simp only: ln_exp)
    moreover have "real k \<le> ln (real_of_int x)"
      using Cons.prems(5) xpos by (simp add: ln_ge_iff)
    ultimately have fl: "\<lfloor>ln (real_of_int x)\<rfloor> = int k"
      by (simp add: floor_eq_iff)
    have "\<forall>c' \<in> set cs. x < c'"
      using Cons.prems(6) False by auto
    then have "filter (\<lambda>c. c \<le> x) cs = []"
      by (auto simp: filter_empty_conv)
    with False fl show ?thesis by simp
  qed
qed

lemma exp_ceilings_ok:
  "exp_table_ok exp_scale exp_scale (exp_ceilings @ [34934271057485095349])"
  by code_simp

lemma uint_of_small_nat: "n \<le> 44 \<Longrightarrow> uint (of_nat n :: 64 word) = int n"
  by (simp add: uint_nat unat_of_nat)

lemma floor_log_floor_ln:
  assumes "h \<noteq> 0"
  shows "uint (floor_log ninf h) = \<lfloor>ln (real_of_int (uint h))\<rfloor>"
proof -
  let ?cs = "exp_ceilings @ [34934271057485095349]"
  have "uint h \<noteq> 0" using assms by (simp add: uint_0_iff)
  moreover have "0 \<le> uint h" by simp
  ultimately have x1: "1 \<le> uint h" by linarith
  have x2: "uint h < 2 ^ 64" using uint_bounded[of h] by simp
  have "\<lfloor>ln (real_of_int (uint h))\<rfloor>
        = int 0 + int (length (filter (\<lambda>c. c \<le> uint h) ?cs))"
  proof (rule exp_table_floor_ln[OF exp_ceilings_ok])
    show "real_of_int exp_scale / real_of_int exp_scale \<le> exp (real 0)"
      by (simp add: exp_scale_def)
    show "exp (real 0) \<le> real_of_int exp_scale / real_of_int exp_scale"
      by (simp add: exp_scale_def)
    show "0 \<le> exp_scale" by (simp add: exp_scale_def)
    have "real_of_int 1 \<le> real_of_int (uint h)" using x1 by (simp only: of_int_le_iff)
    moreover have "exp (real 0) = real_of_int 1" by simp
    ultimately show "exp (real 0) \<le> real_of_int (uint h)" by (rule ssubst[where P="\<lambda>y. y \<le> real_of_int (uint h)", rotated])
    show "sorted_wrt (<) ?cs" by (simp add: exp_ceilings_def)
    show "?cs \<noteq> []" by simp
    show "uint h < last ?cs" using x2 by simp
  qed
  moreover have "filter (\<lambda>c. c \<le> uint h) ?cs = filter (\<lambda>c. c \<le> uint h) exp_ceilings"
    using x2 by simp
  ultimately have f: "\<lfloor>ln (real_of_int (uint h))\<rfloor> = int (length (filter (\<lambda>c. c \<le> uint h) exp_ceilings))"
    by simp
  have "length (filter (\<lambda>c. c \<le> uint h) exp_ceilings) \<le> length exp_ceilings"
    by (rule length_filter_le)
  also have "\<dots> = 44" by (simp add: exp_ceilings_def)
  finally have "length (filter (\<lambda>c. c \<le> uint h) exp_ceilings) \<le> 44" .
  then have u: "uint (of_nat (length (filter (\<lambda>c. c \<le> uint h) exp_ceilings)) :: 64 word)
        = int (length (filter (\<lambda>c. c \<le> uint h) exp_ceilings))"
    by (rule uint_of_small_nat)
  have fl: "floor_log ninf h = of_nat (length (filter (\<lambda>c. c \<le> uint h) exp_ceilings))"
    using assms by (simp only: floor_log_def if_False)
  show ?thesis unfolding fl u f by (rule refl)
qed

text \<open>
  C1. The specification takes the level of an increment \<open>v > 0\<close> on a running total
  \<open>T \<ge> 0\<close> to be \<open>min (floor (log2 h)) (L - 1)\<close>, with \<open>h\<close> the bits in which \<open>T\<close> and
  \<open>T + v\<close> differ. \<open>waveComputeTotalLevel\<close> takes the natural logarithm of \<open>h\<close>, not the
  binary one: at \<open>T = 3\<close>, \<open>v = 1\<close> and three levels, \<open>h = 7\<close>, the code returns
  \<open>floor (ln 7) = 1\<close> and the specification's level is \<open>floor (log2 7) = 2\<close>.
\<close>

theorem waveComputeTotalLevel_natural_log:
  "waveComputeTotalLevel ninf 3 1 3 = 1 \<and> spec_level 3 1 3 = 2"
  by (simp add: level_steps spec_level_def)

subsection \<open>The modulus\<close>

lemma waveModulo_loop_small:
  "i \<le> 63 \<Longrightarrow> x \<le> 2 ^ 62 \<Longrightarrow> (\<forall>k<i. (2::int) ^ k < x)
     \<Longrightarrow> \<exists>k. waveModulo_loop i ret x = 2 ^ k \<and> x \<le> 2 ^ k \<and> (\<forall>k'. x \<le> 2 ^ k' \<longrightarrow> k \<le> k')"
proof (induction i ret x rule: waveModulo_loop.induct)
  case (1 i ret x)
  have i63: "i < 63"
  proof (rule ccontr)
    assume "\<not> i < 63"
    with "1.prems" have "i = 63" by simp
    with "1.prems"(3)[rule_format, of 62] have "(2::int) ^ 62 < x" by simp
    with "1.prems"(2) show False by simp
  qed
  show ?case
  proof (cases "x \<le> 2 ^ i")
    case True
    have "\<forall>k'. x \<le> 2 ^ k' \<longrightarrow> i \<le> k'"
    proof (intro allI impI)
      fix k' assume "x \<le> 2 ^ k'"
      show "i \<le> k'"
      proof (rule ccontr)
        assume "\<not> i \<le> k'"
        then have "k' < i" by simp
        with "1.prems"(3) have "(2::int) ^ k' < x" by simp
        with \<open>x \<le> 2 ^ k'\<close> show False by simp
      qed
    qed
    with True i63 show ?thesis
      by (subst waveModulo_loop.simps) auto
  next
    case False
    then have lt: "(2::int) ^ i < x" by simp
    have "\<forall>k<i + 1. (2::int) ^ k < x"
      using "1.prems"(3) lt by (auto simp: less_Suc_eq)
    with "1.IH"[OF i63 False] i63 "1.prems"(2)
    obtain k where "waveModulo_loop (i + 1) (2 ^ i) x = 2 ^ k \<and> x \<le> 2 ^ k \<and> (\<forall>k'. x \<le> 2 ^ k' \<longrightarrow> k \<le> k')"
      by auto
    with False i63 show ?thesis
      by (subst waveModulo_loop.simps) auto
  qed
qed

lemma waveModulo_loop_big:
  "2 ^ 62 < x \<Longrightarrow> i \<le> 62 \<Longrightarrow> waveModulo_loop i ret x = 2 ^ 62"
proof (induction i ret x rule: waveModulo_loop.induct)
  case (1 i ret x)
  have nle: "\<not> x \<le> 2 ^ i"
  proof
    assume "x \<le> 2 ^ i"
    moreover have "(2::int) ^ i \<le> 2 ^ 62" using "1.prems"(2) by (intro power_increasing) auto
    ultimately show False using "1.prems"(1) by simp
  qed
  show ?case
  proof (cases "i = 62")
    case True
    then show ?thesis using nle
      by (simp add: waveModulo_loop.simps[of 62] waveModulo_loop.simps[of 63])
  next
    case False
    with "1.prems" have "i + 1 \<le> 62" "i < 63" by auto
    with "1.IH"[OF \<open>i < 63\<close> nle "1.prems"(1)] nle show ?thesis
      by (subst waveModulo_loop.simps) auto
  qed
qed

lemma waveModulo_loop_pos: "i < 63 \<or> 0 < ret \<Longrightarrow> 0 < waveModulo_loop i ret x"
proof (induction i ret x rule: waveModulo_loop.induct)
  case (1 i ret x)
  show ?case
  proof (cases "i < 63")
    case True
    show ?thesis
    proof (cases "x \<le> 2 ^ i")
      case True
      with \<open>i < 63\<close> show ?thesis by (subst waveModulo_loop.simps) simp
    next
      case False
      have "0 < waveModulo_loop (i + 1) (2 ^ i) x"
        using "1.IH"[OF \<open>i < 63\<close> False] by simp
      with False \<open>i < 63\<close> show ?thesis by (subst waveModulo_loop.simps) simp
    qed
  next
    case False
    with "1.prems" show ?thesis by (subst waveModulo_loop.simps) simp
  qed
qed

lemma waveModulo_pos: "0 < waveModulo n r"
  by (simp add: waveModulo_def LLONG_MAX_def waveModulo_loop_pos)

lemma waveModulo_loop_le:
  "ret \<le> 2 ^ 62 \<Longrightarrow> waveModulo_loop i ret x \<le> 2 ^ 62"
proof (induction i ret x rule: waveModulo_loop.induct)
  case (1 i ret x)
  show ?case
  proof (cases "i < 63")
    case True
    then have p: "(2::int) ^ i \<le> 2 ^ 62" by (intro power_increasing) auto
    show ?thesis
    proof (cases "x \<le> 2 ^ i")
      case True
      with \<open>i < 63\<close> p show ?thesis by (subst waveModulo_loop.simps) simp
    next
      case False
      from "1.IH"[OF \<open>i < 63\<close> False p] False \<open>i < 63\<close> show ?thesis
        by (subst waveModulo_loop.simps) simp
    qed
  next
    case False
    with "1.prems" show ?thesis by (subst waveModulo_loop.simps) simp
  qed
qed

lemma waveModulo_le: "waveModulo n r \<le> LLONG_MAX"
proof -
  have "waveModulo_loop 0 0 x \<le> 2 ^ 62" for x by (rule waveModulo_loop_le) simp
  then have "waveModulo_loop 0 0 x \<le> LLONG_MAX" for x
    using order_trans[of "waveModulo_loop 0 0 x" "2 ^ 62" LLONG_MAX] by (simp add: LLONG_MAX_def)
  then show ?thesis by (simp add: waveModulo_def)
qed

lemma waveModulo_guard:
  assumes "0 < n" "n \<le> LLONG_MAX" "0 < r" "r \<le> LLONG_MAX"
  shows "(n > LLONG_MAX sdiv wrap64 (2 * r)) \<longleftrightarrow> 2 * n * r > LLONG_MAX"
proof (cases "r < 2 ^ 62")
  case True
  then have w: "wrap64 (2 * r) = 2 * r" using assms by (intro wrap64_id) auto
  have s: "LLONG_MAX sdiv (2 * r) = LLONG_MAX div (2 * r)"
    using assms by (simp add: signed_divide_int_def LLONG_MAX_def sgn_if)
  have "n > LLONG_MAX div (2 * r) \<longleftrightarrow> n * (2 * r) > LLONG_MAX"
    using assms(3) by (intro int_div_less_iff) simp
  moreover have "n * (2 * r) = 2 * n * r" by simp
  ultimately show ?thesis unfolding w s by simp
next
  case False
  then have big: "2 ^ 62 \<le> r" by simp
  then have w: "wrap64 (2 * r) = 2 * r - 2 ^ 64" using assms by (intro wrap64_double_big) auto
  have neg: "2 * r - 2 ^ 64 < 0" using assms by (simp add: LLONG_MAX_def)
  have "LLONG_MAX sdiv (2 * r - 2 ^ 64) \<le> 0"
    using neg by (simp add: signed_divide_int_def LLONG_MAX_def sgn_if div_int_pos_iff)
  moreover have "2 * n * r > LLONG_MAX"
  proof -
    have "2 * 1 * 2 ^ 62 \<le> 2 * n * r"
      using assms(1) big by (intro mult_mono) auto
    then show ?thesis by (simp add: LLONG_MAX_def)
  qed
  ultimately show ?thesis using assms(1) w by simp
qed

lemma waveModulo_product:
  assumes "0 < n" "0 < r" "2 * n * r \<le> LLONG_MAX"
  shows "wrap64 (wrap64 (2 * n) * r) = 2 * n * r"
proof -
  have "2 * n * 1 \<le> 2 * n * r" using assms by (intro mult_left_mono) auto
  then have "2 * n \<le> 2 * n * r" by simp
  with assms(3) have "2 * n \<le> LLONG_MAX" by linarith
  then have "wrap64 (2 * n) = 2 * n" using assms by (intro wrap64_id) (auto simp: LLONG_MAX_def)
  moreover have "wrap64 (2 * n * r) = 2 * n * r"
    using assms by (intro wrap64_id) (auto simp: LLONG_MAX_def intro: order_trans[of _ 0])
  ultimately show ?thesis by simp
qed

text \<open>
  C8, as the code has it. For \<open>N > 0\<close> and \<open>R > 0\<close> in the range of \<open>long long\<close>:
  when \<open>2NR > LLONG_MAX\<close> the modulus is \<open>LLONG_MAX\<close>; when \<open>2NR \<le> 2^62\<close> it is the
  smallest power of two that is at least \<open>2NR\<close>; and in between, where that power of two
  would be \<open>2^63\<close>, the loop stops at its last power and the modulus is \<open>2^62\<close>.
\<close>

theorem waveModulo_capped:
  assumes "0 < n" "n \<le> LLONG_MAX" "0 < r" "r \<le> LLONG_MAX"
  shows "(LLONG_MAX < 2 * n * r \<longrightarrow> waveModulo n r = LLONG_MAX)
       \<and> (2 * n * r \<le> 2 ^ 62 \<longrightarrow>
            (\<exists>k. waveModulo n r = 2 ^ k \<and> 2 * n * r \<le> 2 ^ k
                 \<and> (\<forall>k'. 2 * n * r \<le> 2 ^ k' \<longrightarrow> k \<le> k')))
       \<and> (2 ^ 62 < 2 * n * r \<and> 2 * n * r \<le> LLONG_MAX \<longrightarrow> waveModulo n r = 2 ^ 62)"
proof (intro conjI impI)
  assume "LLONG_MAX < 2 * n * r"
  then show "waveModulo n r = LLONG_MAX"
    using waveModulo_guard[OF assms] assms(3) by (simp add: waveModulo_def)
next
  assume le: "2 * n * r \<le> 2 ^ 62"
  then have le': "2 * n * r \<le> LLONG_MAX" by (simp add: LLONG_MAX_def)
  then have "waveModulo n r = waveModulo_loop 0 0 (2 * n * r)"
    using waveModulo_guard[OF assms] waveModulo_product[OF assms(1) assms(3)]
    by (simp add: waveModulo_def)
  moreover have "\<exists>k. waveModulo_loop 0 0 (2 * n * r) = 2 ^ k \<and> 2 * n * r \<le> 2 ^ k
                    \<and> (\<forall>k'. 2 * n * r \<le> 2 ^ k' \<longrightarrow> k \<le> k')"
    using le by (intro waveModulo_loop_small) auto
  ultimately show "\<exists>k. waveModulo n r = 2 ^ k \<and> 2 * n * r \<le> 2 ^ k
                    \<and> (\<forall>k'. 2 * n * r \<le> 2 ^ k' \<longrightarrow> k \<le> k')"
    by simp
next
  assume a: "2 ^ 62 < 2 * n * r \<and> 2 * n * r \<le> LLONG_MAX"
  then have "waveModulo n r = waveModulo_loop 0 0 (2 * n * r)"
    using waveModulo_guard[OF assms] waveModulo_product[OF assms(1) assms(3)]
    by (simp add: waveModulo_def)
  then show "waveModulo n r = 2 ^ 62"
    using a waveModulo_loop_big[of "2 * n * r" 0 0] by simp
qed

theorem waveModulo_capped_witness:
  "(0::int) < 60 \<and> 60 \<le> LLONG_MAX \<and> (0::int) < 1024 \<and> 1024 \<le> LLONG_MAX
   \<and> 2 * 60 * 1024 \<le> (2::int) ^ 62
   \<and> (\<exists>k. waveModulo 60 1024 = 2 ^ k \<and> 2 * 60 * 1024 \<le> (2::int) ^ k
          \<and> (\<forall>k'. 2 * 60 * 1024 \<le> (2::int) ^ k' \<longrightarrow> k \<le> k'))"
  using waveModulo_capped[of 60 1024] by (simp add: LLONG_MAX_def)

text \<open>C8 as stated fails between \<open>2^62\<close> and \<open>LLONG_MAX\<close>: for \<open>N = 2^61 + 1\<close> and \<open>R = 1\<close>,
  \<open>2NR = 2^62 + 2\<close> does not exceed \<open>LLONG_MAX\<close>, and the modulus, \<open>2^62\<close>, is below \<open>2NR\<close>.\<close>

theorem waveModulo_below_product:
  "2 * 2305843009213693953 * 1 \<le> LLONG_MAX
   \<and> \<not> (2 * 2305843009213693953 * 1 \<le> waveModulo 2305843009213693953 1)"
  by (simp add: waveModulo_def LLONG_MAX_def wrap64_def waveModulo_loop.simps)

subsection \<open>Purge, resize and reset\<close>

lemma purgeLevels_ok: "k \<le> length qs \<Longrightarrow> purgeLevels k qs = Inr (replicate k [] @ drop k qs)"
  by (induction k qs rule: purgeLevels.induct) auto

lemma purgeLevels_Inr:
  "purgeLevels k qs = Inr qs' \<Longrightarrow> k \<le> length qs \<and> qs' = replicate k [] @ drop k qs"
  by (induction k qs arbitrary: qs' rule: purgeLevels.induct) (auto split: sum.splits)

lemma wavePurgeLists_ok:
  assumes "wave_ok cl w"
  shows "wavePurgeLists cl w = Inr (w\<lparr>l := replicate (length (l w)) [], L := []\<rparr>)"
proof -
  from assms obtain nl where nl: "waveNumLevels cl w = Inr nl" "nl \<le> length (l w)"
    "list_all (\<lambda>q. q = []) (drop nl (l w))"
    by (auto simp: wave_ok_def split: sum.splits)
  from nl(3) have "drop nl (l w) = replicate (length (l w) - nl) []"
    by (intro replicate_eqI) (auto simp: list_all_iff)
  then have "replicate nl [] @ drop nl (l w) = replicate (length (l w)) []"
    using nl(2) by (simp add: replicate_add[symmetric])
  then show ?thesis
    using nl by (simp add: wavePurgeLists_def purgeLevels_ok)
qed

lemma wavePurgeLists_Inr:
  assumes "wavePurgeLists cl w = Inr w'"
  shows "L w' = [] \<and> (\<exists>qs. w' = w\<lparr>l := qs, L := []\<rparr>)"
  using assms by (auto simp: wavePurgeLists_def split: sum.splits)

lemma wave_ok_cong:
  "wave_ok cl w \<Longrightarrow> N w' = N w \<Longrightarrow> E w' = E w \<Longrightarrow> R w' = R w \<Longrightarrow> l w' = l w
   \<Longrightarrow> wave_ok cl w'"
  by (simp add: wave_ok_def waveNumLevels_cong[of w' w] split: sum.splits)

lemma wave_ok_purged:
  assumes "wave_ok cl w"
  shows "wave_ok cl (w\<lparr>l := replicate (length (l w)) [], L := ls\<rparr>)"
proof -
  from assms obtain nl where nl: "waveNumLevels cl w = Inr nl" "nl \<le> length (l w)"
    by (auto simp: wave_ok_def split: sum.splits)
  have "waveNumLevels cl (w\<lparr>l := replicate (length (l w)) [], L := ls\<rparr>) = Inr nl"
    using nl(1) by (subst waveNumLevels_cong[of _ w]) simp_all
  then show ?thesis
    using nl(2) by (simp add: wave_ok_def list_all_length)
qed

lemma waveReset_ok:
  assumes "wave_ok cl w"
  shows "waveReset cl a b w
         = Inr (w\<lparr>start := a, last_ts := b, pos := 0, total := 0, z := 0,
                  l := replicate (length (l w)) [], L := []\<rparr>)"
proof -
  have "wave_ok cl (w\<lparr>start := a, last_ts := b, pos := 0, total := 0, z := 0\<rparr>)"
    by (rule wave_ok_cong[OF assms]) simp_all
  from wavePurgeLists_ok[OF this] show ?thesis by (simp add: waveReset_def)
qed

lemma waveGet_empty: "L w = [] \<Longrightarrow> total w = z w \<Longrightarrow> waveGet w ts fast = 0"
  by (simp add: waveGet_def)

text \<open>
  C7. On a wave whose array of level queues covers its levels, \<open>waveResize\<close> returns, and
  the wave it returns has an empty \<open>L\<close>, every level queue empty, the new \<open>N\<close>, \<open>E\<close> and \<open>R\<close>,
  \<open>M = waveModulo N R\<close>, and \<open>total\<close>, \<open>z\<close>, \<open>pos\<close>, \<open>start\<close> and \<open>last\<close> as they were.
\<close>

theorem waveResize_purges_keeps_scalars:
  assumes "wave_ok cl w"
  shows "\<exists>w'. waveResize cl w n e r = Inr w'
           \<and> L w' = [] \<and> length (l w') = length (l w) \<and> (\<forall>q \<in> set (l w'). q = [])
           \<and> N w' = n \<and> E w' = e \<and> R w' = r \<and> M w' = waveModulo n r
           \<and> total w' = total w \<and> z w' = z w \<and> pos w' = pos w
           \<and> start w' = start w \<and> last_ts w' = last_ts w \<and> expire w' = expire w"
  using wavePurgeLists_ok[OF assms] by (simp add: waveResize_def)

theorem waveResize_purges_keeps_scalars_witness:
  "wave_ok (\<lambda>n e r. 1)
     \<lparr>expire = 1, N = 4, E = 1 / 4, R = 1, M = 8, start = 1000, last_ts = 1001, pos = 1,
      total = 2, z = 0, l = [[\<lparr>ipos = 0, iv = 1, iz = 1\<rparr>], [\<lparr>ipos = 1, iv = 1, iz = 2\<rparr>]],
      L = [\<lparr>ipos = 0, iv = 1, iz = 1\<rparr>, \<lparr>ipos = 1, iv = 1, iz = 2\<rparr>]\<rparr>
   \<and> waveResize (\<lambda>n e r. 1)
       \<lparr>expire = 1, N = 4, E = 1 / 4, R = 1, M = 8, start = 1000, last_ts = 1001, pos = 1,
        total = 2, z = 0, l = [[\<lparr>ipos = 0, iv = 1, iz = 1\<rparr>], [\<lparr>ipos = 1, iv = 1, iz = 2\<rparr>]],
        L = [\<lparr>ipos = 0, iv = 1, iz = 1\<rparr>, \<lparr>ipos = 1, iv = 1, iz = 2\<rparr>]\<rparr> 60 (1 / 20) 1024
     = Inr \<lparr>expire = 1, N = 60, E = 1 / 20, R = 1024, M = 131072, start = 1000, last_ts = 1001,
            pos = 1, total = 2, z = 0, l = [[], []], L = []\<rparr>"
  using waveResize_purges_keeps_scalars[of "\<lambda>n e r. 1"
     "\<lparr>expire = 1, N = 4, E = 1 / 4, R = 1, M = 8, start = 1000, last_ts = 1001, pos = 1,
      total = 2, z = 0, l = [[\<lparr>ipos = 0, iv = 1, iz = 1\<rparr>], [\<lparr>ipos = 1, iv = 1, iz = 2\<rparr>]],
      L = [\<lparr>ipos = 0, iv = 1, iz = 1\<rparr>, \<lparr>ipos = 1, iv = 1, iz = 2\<rparr>]\<rparr>" 60 "1 / 20" 1024]
  by (simp add: wave_ok_def waveNumLevels_def waveResize_def wavePurgeLists_def
      waveModulo_def LLONG_MAX_def wrap64_def waveModulo_loop.simps)

text \<open>
  C9. On a wave whose array of level queues covers its levels, \<open>waveReset\<close> returns a wave
  with no triple, \<open>pos\<close>, \<open>total\<close> and \<open>z\<close> zero and \<open>start\<close> and \<open>last\<close> the two readings of
  the clock. A second reset at the same readings returns the same wave, a second reset at
  any readings returns what a single reset at those readings returns, and every query of
  the wave reset returns 0.
\<close>

theorem waveReset_idempotent:
  assumes "wave_ok cl w"
  shows "\<exists>w1. waveReset cl now1 now2 w = Inr w1
           \<and> waveReset cl now1 now2 w1 = Inr w1
           \<and> waveReset cl now3 now4 w1 = waveReset cl now3 now4 w
           \<and> L w1 = [] \<and> (\<forall>q \<in> set (l w1). q = [])
           \<and> pos w1 = 0 \<and> total w1 = 0 \<and> z w1 = 0 \<and> start w1 = now1 \<and> last_ts w1 = now2
           \<and> (\<forall>ts fast. waveGet w1 ts fast = 0)"
proof -
  define w1 where "w1 = w\<lparr>start := now1, last_ts := now2, pos := 0, total := 0, z := 0,
                          l := replicate (length (l w)) [], L := []\<rparr>"
  have r: "waveReset cl now1 now2 w = Inr w1"
    unfolding w1_def by (rule waveReset_ok[OF assms])
  have "wave_ok cl (w\<lparr>l := replicate (length (l w)) [], L := []\<rparr>)"
    by (rule wave_ok_purged[OF assms])
  then have ok1: "wave_ok cl w1"
    by (rule wave_ok_cong) (simp_all add: w1_def)
  have r1: "waveReset cl now1 now2 w1 = Inr w1"
    unfolding waveReset_ok[OF ok1] by (simp add: w1_def)
  have r2: "waveReset cl now3 now4 w1 = waveReset cl now3 now4 w"
    unfolding waveReset_ok[OF ok1] waveReset_ok[OF assms] by (simp add: w1_def)
  have g: "\<forall>ts fast. waveGet w1 ts fast = 0"
    by (simp add: w1_def waveGet_empty)
  have f: "L w1 = []" "\<forall>q \<in> set (l w1). q = []" "pos w1 = 0" "total w1 = 0" "z w1 = 0"
    "start w1 = now1" "last_ts w1 = now2"
    by (simp_all add: w1_def)
  from r r1 r2 g f show ?thesis by blast
qed

theorem waveReset_idempotent_witness:
  "wave_ok (\<lambda>n e r. 1)
     \<lparr>expire = 1, N = 4, E = 1 / 4, R = 1, M = 8, start = 1000, last_ts = 1001, pos = 1,
      total = 2, z = 0, l = [[\<lparr>ipos = 0, iv = 1, iz = 1\<rparr>], [\<lparr>ipos = 1, iv = 1, iz = 2\<rparr>]],
      L = [\<lparr>ipos = 0, iv = 1, iz = 1\<rparr>, \<lparr>ipos = 1, iv = 1, iz = 2\<rparr>]\<rparr>
   \<and> waveReset (\<lambda>n e r. 1) 2000 2000
       \<lparr>expire = 1, N = 4, E = 1 / 4, R = 1, M = 8, start = 1000, last_ts = 1001, pos = 1,
        total = 2, z = 0, l = [[\<lparr>ipos = 0, iv = 1, iz = 1\<rparr>], [\<lparr>ipos = 1, iv = 1, iz = 2\<rparr>]],
        L = [\<lparr>ipos = 0, iv = 1, iz = 1\<rparr>, \<lparr>ipos = 1, iv = 1, iz = 2\<rparr>]\<rparr>
     = Inr \<lparr>expire = 1, N = 4, E = 1 / 4, R = 1, M = 8, start = 2000, last_ts = 2000,
            pos = 0, total = 0, z = 0, l = [[], []], L = []\<rparr>
   \<and> waveReset (\<lambda>n e r. 1) 2000 2000
       \<lparr>expire = 1, N = 4, E = 1 / 4, R = 1, M = 8, start = 2000, last_ts = 2000,
        pos = 0, total = 0, z = 0, l = [[], []], L = []\<rparr>
     = Inr \<lparr>expire = 1, N = 4, E = 1 / 4, R = 1, M = 8, start = 2000, last_ts = 2000,
            pos = 0, total = 0, z = 0, l = [[], []], L = []\<rparr>"
  using waveReset_idempotent[of "\<lambda>n e r. 1"
     "\<lparr>expire = 1, N = 4, E = 1 / 4, R = 1, M = 8, start = 1000, last_ts = 1001, pos = 1,
      total = 2, z = 0, l = [[\<lparr>ipos = 0, iv = 1, iz = 1\<rparr>], [\<lparr>ipos = 1, iv = 1, iz = 2\<rparr>]],
      L = [\<lparr>ipos = 0, iv = 1, iz = 1\<rparr>, \<lparr>ipos = 1, iv = 1, iz = 2\<rparr>]\<rparr>" 2000 2000 2000 2000]
  by (simp add: wave_ok_def waveNumLevels_def waveReset_def wavePurgeLists_def)

subsection \<open>The insert\<close>

lemma expireLoop_Inr:
  "expireLoop ninf nl b zw qs ls = Inr (zw', qs', ls')
   \<Longrightarrow> (\<exists>pre. ls = pre @ ls') \<and> (zw' = zw \<or> zw' \<in> iz ` set ls) \<and> length qs' = length qs"
proof (induction ls arbitrary: zw qs)
  case Nil
  then show ?case by simp
next
  case (Cons item rest)
  show ?case
  proof (cases "ipos item \<le> b")
    case True
    let ?j = "waveComputeTotalLevel ninf (iz item) 0 nl"
    from Cons.prems True have j: "?j < length qs"
      by (auto simp: Let_def split: if_splits)
    with Cons.prems True
    have "expireLoop ninf nl b (iz item) (qs[?j := remove1 item (qs ! ?j)]) rest = Inr (zw', qs', ls')"
      by (simp add: Let_def)
    from Cons.IH[OF this] show ?thesis by auto
  next
    case False
    with Cons.prems show ?thesis by auto
  qed
qed

lemma expireLoop_succeeds:
  "1 \<le> nl \<Longrightarrow> nl \<le> length qs
   \<Longrightarrow> \<exists>zw' qs' ls'. expireLoop ninf nl b zw qs ls = Inr (zw', qs', ls')
         \<and> drop nl qs' = drop nl qs"
proof (induction ls arbitrary: zw qs)
  case Nil
  then show ?case by simp
next
  case (Cons item rest)
  let ?j = "waveComputeTotalLevel ninf (iz item) 0 nl"
  let ?qs = "qs[?j := remove1 item (qs ! ?j)]"
  have j: "?j < nl" using Cons.prems(1) by (rule waveComputeTotalLevel_less)
  then have jl: "?j < length qs" using Cons.prems(2) by simp
  have "nl \<le> length ?qs" using Cons.prems(2) by simp
  from Cons.IH[OF Cons.prems(1) this, of "iz item"]
  obtain zw' qs' ls' where r: "expireLoop ninf nl b (iz item) ?qs rest = Inr (zw', qs', ls')"
    "drop nl qs' = drop nl ?qs" by blast
  have "drop nl ?qs = drop nl qs" using j by simp
  with r jl show ?case by (auto simp: Let_def)
qed

lemma advancePos_fields [simp]:
  "N (advancePos w ts) = N w" "E (advancePos w ts) = E w" "R (advancePos w ts) = R w"
  "M (advancePos w ts) = M w" "start (advancePos w ts) = start w"
  "total (advancePos w ts) = total w" "z (advancePos w ts) = z w"
  "l (advancePos w ts) = l w" "L (advancePos w ts) = L w" "expire (advancePos w ts) = expire w"
  by (simp_all add: advancePos_def)

lemma expireOld_Inr:
  assumes "expireOld ninf nl w = Inr w2"
  shows "(\<exists>pre. L w = pre @ L w2) \<and> (z w2 = z w \<or> z w2 \<in> iz ` set (L w))
         \<and> length (l w2) = length (l w) \<and> w2 = w\<lparr>z := z w2, l := l w2, L := L w2\<rparr>"
proof -
  from assms obtain zw qs ls where
    e: "expireLoop ninf nl (wrap64 (pos w - N w)) (z w) (l w) (L w) = Inr (zw, qs, ls)"
    and w2: "w2 = w\<lparr>z := zw, l := qs, L := ls\<rparr>"
    by (auto simp: expireOld_def split: sum.splits)
  from expireLoop_Inr[OF e] show ?thesis by (simp add: w2)
qed

lemma expireOld_succeeds:
  assumes "1 \<le> nl" "nl \<le> length (l w)"
  shows "\<exists>w2. expireOld ninf nl w = Inr w2 \<and> drop nl (l w2) = drop nl (l w)"
proof -
  from expireLoop_succeeds[OF assms, of ninf "wrap64 (pos w - N w)" "z w" "L w"]
  obtain zw qs ls where
    "expireLoop ninf nl (wrap64 (pos w - N w)) (z w) (l w) (L w) = Inr (zw, qs, ls)"
    "drop nl qs = drop nl (l w)" by blast
  then show ?thesis by (simp add: expireOld_def)
qed

lemma admit_status:
  "admit ninf nl alloc w v' = Inr (st, w') \<Longrightarrow> st = (if alloc then REDIS_OK else REDIS_ERR)"
  by (auto simp: admit_def Let_def split: if_splits prod.splits)

lemma admit_succeeds:
  assumes "1 \<le> nl" "nl \<le> length (l w)"
  shows "\<exists>w' ls j. admit ninf nl True w v' = Inr (REDIS_OK, w')
           \<and> total w' = wrap64 (total w + v') \<and> pos w' = pos w
           \<and> L w' = ls @ [waveitemCreate (pos w) v' (wrap64 (total w + v') smod M w)]
           \<and> j < length (l w') \<and> j < nl
           \<and> l w' ! j \<noteq> []
           \<and> hd (l w' ! j) = waveitemCreate (pos w) v' (wrap64 (total w + v') smod M w)"
proof -
  let ?j = "waveComputeTotalLevel ninf (total w) v' nl"
  let ?new = "waveitemCreate (pos w) v' (wrap64 (total w + v') smod M w)"
  have j: "?j < nl" using assms(1) by (rule waveComputeTotalLevel_less)
  then have jl: "?j < length (l w)" using assms(2) by simp
  obtain qs ls where ev: "evictTail (waveLevelMaxPositions (E w)) ?j (l w) (L w) = (qs, ls)"
    by (cases "evictTail (waveLevelMaxPositions (E w)) ?j (l w) (L w)")
  then have len: "length qs = length (l w)"
    by (auto simp: evictTail_def split: if_splits)
  have "admit ninf nl True w v'
        = Inr (REDIS_OK, w\<lparr>total := wrap64 (total w + v'),
             l := qs[?j := ?new # qs ! ?j], L := ls @ [?new]\<rparr>)"
    using jl ev by (simp add: admit_def Let_def)
  moreover have "?j < length (qs[?j := ?new # qs ! ?j])"
    using jl len by simp
  moreover have "qs[?j := ?new # qs ! ?j] ! ?j = ?new # qs ! ?j"
    using jl len by simp
  ultimately show ?thesis
    using j by (intro exI[of _ "w\<lparr>total := wrap64 (total w + v'),
             l := qs[?j := ?new # qs ! ?j], L := ls @ [?new]\<rparr>"]
          exI[of _ ls] exI[of _ ?j]) simp
qed

lemma waveSet_admitted:
  assumes "waveSet cl ninf alloc w v' ts = Inr (st, w')" "0 < v'" "ts \<noteq> 0" "start w \<le> ts"
  obtains nl w2 where "waveNumLevels cl w = Inr nl"
    "expireOld ninf nl (advancePos w ts) = Inr w2" "admit ninf nl alloc w2 v' = Inr (st, w')"
  using assms by (auto simp: waveSet_def split: sum.splits)

lemma waveSet_rejected:
  "v' \<le> 0 \<or> ts = 0 \<or> ts < start w
   \<Longrightarrow> waveSet cl ninf alloc w v' ts
       = Inr (if v' \<le> 0 \<or> ts = 0 then REDIS_ERR else REDIS_OK, w)"
  by (auto simp: waveSet_def)

lemma wave_ok_create:
  assumes "waveCreate cl now n e r ts ex = Inr w"
  shows "wave_ok cl w"
proof -
  let ?w = "\<lparr>expire = ex, N = n, E = (if e = 0 then to_double (5 / 100) else e), R = r, M = waveModulo n r,
             start = (if ts = 0 then now else ts), last_ts = (if ts = 0 then now else ts),
             pos = 0, total = 0, z = 0, l = [], L = []\<rparr>"
  from assms obtain nl where nl: "waveNumLevels cl ?w = Inr nl"
    and w: "w = ?w\<lparr>l := replicate nl []\<rparr>"
    by (auto simp: waveCreate_def Let_def split: sum.splits)
  have "waveNumLevels cl w = Inr nl"
    using nl unfolding w by (subst waveNumLevels_cong[of _ ?w]) simp_all
  then show ?thesis by (simp add: wave_ok_def w)
qed

lemma wave_ok_waveSet:
  assumes "wave_ok cl w" "waveSet cl ninf alloc w v' ts = Inr (st, w')"
  shows "wave_ok cl w'"
proof (cases "v' \<le> 0 \<or> ts = 0 \<or> ts < start w")
  case True
  from waveSet_rejected[OF this, of cl ninf alloc] assms(2) have "w' = w" by simp
  with assms(1) show ?thesis by simp
next
  case False
  then have a: "0 < v'" "ts \<noteq> 0" "start w \<le> ts" by auto
  from waveSet_admitted[OF assms(2) a]
  obtain nl w2 where nl: "waveNumLevels cl w = Inr nl"
    and e: "expireOld ninf nl (advancePos w ts) = Inr w2"
    and ad: "admit ninf nl alloc w2 v' = Inr (st, w')" by blast
  from assms(1) nl have len: "nl \<le> length (l w)"
    and emp: "list_all (\<lambda>q. q = []) (drop nl (l w))"
    by (simp_all add: wave_ok_def)
  from waveNumLevels_Inr[OF nl] have nl1: "1 \<le> nl" by simp
  from expireOld_succeeds[OF nl1, of "advancePos w ts" ninf] len e
  have d2: "drop nl (l w2) = drop nl (l w)" by auto
  from expireOld_Inr[OF e] have len2: "length (l w2) = length (l w)"
    and eq2: "w2 = (advancePos w ts)\<lparr>z := z w2, l := l w2, L := L w2\<rparr>" by simp_all
  have p2: "N w2 = N w" "E w2 = E w" "R w2 = R w" by (subst eq2, simp)+
  let ?j = "waveComputeTotalLevel ninf (total w2) v' nl"
  have j: "?j < nl" using nl1 by (rule waveComputeTotalLevel_less)
  obtain qs ls where ev: "evictTail (waveLevelMaxPositions (E w2)) ?j (l w2) (L w2) = (qs, ls)"
    by (cases "evictTail (waveLevelMaxPositions (E w2)) ?j (l w2) (L w2)")
  have dq: "drop nl qs = drop nl (l w2) \<and> length qs = length (l w2)"
    using ev j by (auto simp: evictTail_def split: if_splits)
  from ad ev j len len2
  have "l w' = (if alloc then qs[?j := waveitemCreate (pos w2) v' (wrap64 (total w2 + v') smod M w2) # qs ! ?j] else qs)
       \<and> N w' = N w2 \<and> E w' = E w2 \<and> R w' = R w2"
    by (auto simp: admit_def Let_def split: if_splits)
  then have l': "drop nl (l w') = drop nl (l w)" "length (l w') = length (l w)"
    and p': "N w' = N w" "E w' = E w" "R w' = R w"
    using dq d2 j len2 p2 by (auto split: if_splits)
  have "waveNumLevels cl w' = Inr nl"
    using nl p' by (subst waveNumLevels_cong[of _ w]) simp_all
  then show ?thesis using len emp l' by (simp add: wave_ok_def)
qed

lemmas create_steps = create_and_apply_def waveCreate_def waveNumLevels_def waveModulo_def
  LLONG_MAX_def wrap64_def waveModulo_loop.simps

lemmas waveSet_steps = waveSet_def waveNumLevels_def advancePos_def expireOld_def admit_def
  evictTail_def waveLevelMaxPositions_def waveitemCreate_def Let_def smod_nonneg wrap64_def
  to_double_numeral

lemmas waveGet_steps = waveGet_def fast_estimate_def ll_of_double_def to_double_minus

text \<open>
  C4, as the code has it. \<open>waveSet\<close> leaves the wave unchanged in each of the three cases
  \<open>v \<le> 0\<close>, \<open>ts = 0\<close> (unset) and \<open>ts < start\<close>; it returns \<open>REDIS_ERR\<close> in the first two and
  \<open>REDIS_OK\<close> in the third; and it returns \<open>REDIS_ERR\<close> only in the first two or when the
  allocation of the new triple fails.
\<close>

theorem waveSet_no_ops:
  "(v' \<le> 0 \<or> ts = 0 \<longrightarrow> waveSet cl ninf alloc w v' ts = Inr (REDIS_ERR, w))
   \<and> (0 < v' \<and> ts \<noteq> 0 \<and> ts < start w \<longrightarrow> waveSet cl ninf alloc w v' ts = Inr (REDIS_OK, w))
   \<and> (waveSet cl ninf alloc w v' ts = Inr (REDIS_ERR, w') \<longrightarrow> v' \<le> 0 \<or> ts = 0 \<or> \<not> alloc)"
proof (intro conjI impI)
  assume "v' \<le> 0 \<or> ts = 0"
  then show "waveSet cl ninf alloc w v' ts = Inr (REDIS_ERR, w)"
    using waveSet_rejected[of v' ts w cl ninf alloc] by auto
next
  assume "0 < v' \<and> ts \<noteq> 0 \<and> ts < start w"
  then show "waveSet cl ninf alloc w v' ts = Inr (REDIS_OK, w)"
    using waveSet_rejected[of v' ts w cl ninf alloc] by auto
next
  assume err: "waveSet cl ninf alloc w v' ts = Inr (REDIS_ERR, w')"
  show "v' \<le> 0 \<or> ts = 0 \<or> \<not> alloc"
  proof (rule ccontr)
    assume "\<not> (v' \<le> 0 \<or> ts = 0 \<or> \<not> alloc)"
    then have a: "0 < v'" "ts \<noteq> 0" "alloc" by auto
    show False
    proof (cases "ts < start w")
      case True
      with a err show False using waveSet_rejected[of v' ts w cl ninf alloc] by auto
    next
      case False
      then have "start w \<le> ts" by simp
      from waveSet_admitted[OF err a(1) a(2) this]
      obtain nl w2 where "admit ninf nl alloc w2 v' = Inr (REDIS_ERR, w')" by blast
      from admit_status[OF this] a(3) show False by simp
    qed
  qed
qed

theorem waveSet_no_ops_witness:
  "waveSet (\<lambda>n e r. 0) 0 True
     \<lparr>expire = 1, N = 60, E = 1 / 20, R = 1024, M = 131072, start = 1000, last_ts = 1000,
      pos = 0, total = 0, z = 0, l = [[]], L = []\<rparr> 0 1000
   = Inr (REDIS_ERR, \<lparr>expire = 1, N = 60, E = 1 / 20, R = 1024, M = 131072, start = 1000,
      last_ts = 1000, pos = 0, total = 0, z = 0, l = [[]], L = []\<rparr>)
   \<and> waveSet (\<lambda>n e r. 0) 0 True
     \<lparr>expire = 1, N = 60, E = 1 / 20, R = 1024, M = 131072, start = 1000, last_ts = 1000,
      pos = 0, total = 0, z = 0, l = [[]], L = []\<rparr> 5 999
   = Inr (REDIS_OK, \<lparr>expire = 1, N = 60, E = 1 / 20, R = 1024, M = 131072, start = 1000,
      last_ts = 1000, pos = 0, total = 0, z = 0, l = [[]], L = []\<rparr>)
   \<and> waveSet (\<lambda>n e r. 0) 0 False
     \<lparr>expire = 1, N = 60, E = 1 / 20, R = 1024, M = 131072, start = 1000, last_ts = 1000,
      pos = 0, total = 0, z = 0, l = [[]], L = []\<rparr> 5 1000
   = Inr (REDIS_ERR, \<lparr>expire = 1, N = 60, E = 1 / 20, R = 1024, M = 131072, start = 1000,
      last_ts = 1000, pos = 0, total = 5, z = 0, l = [[]], L = []\<rparr>)
   \<and> ((5::int) \<le> 0 \<or> (1000::int) = 0 \<or> \<not> False)"
  using waveSet_no_ops[of 0 1000 "\<lambda>n e r. 0" 0 True
     "\<lparr>expire = 1, N = 60, E = 1 / 20, R = 1024, M = 131072, start = 1000, last_ts = 1000,
      pos = 0, total = 0, z = 0, l = [[]], L = []\<rparr>"]
    waveSet_no_ops[of 5 999 "\<lambda>n e r. 0" 0 True
     "\<lparr>expire = 1, N = 60, E = 1 / 20, R = 1024, M = 131072, start = 1000, last_ts = 1000,
      pos = 0, total = 0, z = 0, l = [[]], L = []\<rparr>"]
    waveSet_no_ops[of 5 1000 "\<lambda>n e r. 0" 0 False
     "\<lparr>expire = 1, N = 60, E = 1 / 20, R = 1024, M = 131072, start = 1000, last_ts = 1000,
      pos = 0, total = 0, z = 0, l = [[]], L = []\<rparr>"
     "\<lparr>expire = 1, N = 60, E = 1 / 20, R = 1024, M = 131072, start = 1000,
      last_ts = 1000, pos = 0, total = 5, z = 0, l = [[]], L = []\<rparr>"]
  by (simp add: waveSet_def waveNumLevels_def advancePos_def expireOld_def admit_def
      waveComputeTotalLevel_def evictTail_def waveLevelMaxPositions_def waveitemCreate_def
      wrap64_def)

text \<open>C4 as stated fails: an increment of 0 is answered \<open>REDIS_ERR\<close>, not \<open>REDIS_OK\<close>.\<close>

theorem waveSet_rejects_with_error:
  "waveSet (\<lambda>n e r. 13) 9223372036854775808 True
     \<lparr>expire = 1, N = 60, E = 1 / 20, R = 1024, M = 131072, start = 1000, last_ts = 1000,
      pos = 0, total = 0, z = 0, l = replicate 14 [], L = []\<rparr> 0 1000
   = Inr (REDIS_ERR,
     \<lparr>expire = 1, N = 60, E = 1 / 20, R = 1024, M = 131072, start = 1000, last_ts = 1000,
      pos = 0, total = 0, z = 0, l = replicate 14 [], L = []\<rparr>)
   \<and> REDIS_ERR \<noteq> REDIS_OK"
  by (simp add: waveSet_def)

text \<open>
  C10. On a wave whose array of level queues covers its levels, \<open>waveSet\<close> with \<open>v \<ge> 1\<close>, a
  timestamp \<open>ts \<ge> start\<close> that is set (not 0) and a successful allocation returns
  \<open>REDIS_OK\<close>, adds \<open>v\<close> to \<open>total\<close> in the arithmetic of \<open>long long\<close> (the new total is the
  sum when the sum is in the range of the type, and the sum wrapped otherwise) and puts
  the triple \<open>(pos, v, total % M)\<close> of the new total at the tail of \<open>L\<close> and at the head of
  a level queue, whatever \<open>R\<close> is; when \<open>v > R\<close> it is the command that answers with the
  too-big error and leaves the wave as it is.
\<close>

theorem waveSet_admits_beyond_R:
  assumes "wave_ok cl w" "1 \<le> v'" "start w \<le> ts" "ts \<noteq> 0"
  shows "\<exists>w' ls j. waveSet cl ninf True w v' ts = Inr (REDIS_OK, w')
           \<and> total w' = wrap64 (total w + v')
           \<and> (- (2 ^ 63) \<le> total w \<and> total w + v' \<le> LLONG_MAX \<longrightarrow> total w' = total w + v')
           \<and> L w' = ls @ [waveitemCreate (pos w') v' (total w' smod M w)]
           \<and> j < length (l w') \<and> l w' ! j \<noteq> []
           \<and> hd (l w' ! j) = waveitemCreate (pos w') v' (total w' smod M w)
           \<and> (R w < v' \<longrightarrow> wvincrbyCommand_incr cl ninf True w v' ts = Inr (TooBigErr, w))"
proof -
  from assms(1) obtain nl where nl: "waveNumLevels cl w = Inr nl" "nl \<le> length (l w)"
    by (auto simp: wave_ok_def split: sum.splits)
  from waveNumLevels_Inr[OF nl(1)] have nl1: "1 \<le> nl" by simp
  from expireOld_succeeds[OF nl1, of "advancePos w ts" ninf] nl(2)
  obtain w2 where w2: "expireOld ninf nl (advancePos w ts) = Inr w2" by auto
  from expireOld_Inr[OF w2] have len: "length (l w2) = length (l w)"
    and eq: "w2 = (advancePos w ts)\<lparr>z := z w2, l := l w2, L := L w2\<rparr>" by simp_all
  have f: "total w2 = total w" "M w2 = M w"
    by (subst eq, simp)+
  from admit_succeeds[OF nl1, of w2 ninf v'] nl(2) len
  obtain w' ls j where a: "admit ninf nl True w2 v' = Inr (REDIS_OK, w')"
    "total w' = wrap64 (total w2 + v')" "pos w' = pos w2"
    "L w' = ls @ [waveitemCreate (pos w2) v' (wrap64 (total w2 + v') smod M w2)]"
    "j < length (l w')" "l w' ! j \<noteq> []"
    "hd (l w' ! j) = waveitemCreate (pos w2) v' (wrap64 (total w2 + v') smod M w2)"
    by auto
  have s: "waveSet cl ninf True w v' ts = Inr (REDIS_OK, w')"
    using assms(2-4) nl(1) w2 a(1) by (simp add: waveSet_def)
  have c: "R w < v' \<longrightarrow> wvincrbyCommand_incr cl ninf True w v' ts = Inr (TooBigErr, w)"
    by (simp add: wvincrbyCommand_incr_def)
  have r: "- (2 ^ 63) \<le> total w \<and> total w + v' \<le> LLONG_MAX \<longrightarrow> total w' = total w + v'"
    using assms(2) a(2) f(1) by (auto simp: LLONG_MAX_def intro!: wrap64_id)
  from s a(2-7) f c r show ?thesis by auto
qed

theorem waveSet_admits_beyond_R_witness:
  "wave_ok (\<lambda>n e r. 2)
     \<lparr>expire = 1, N = 2, E = 1 / 2, R = 2, M = 8, start = 1000, last_ts = 1000,
      pos = 0, total = 0, z = 0, l = [[], [], []], L = []\<rparr>
   \<and> waveSet (\<lambda>n e r. 2) 9223372036854775808 True
     \<lparr>expire = 1, N = 2, E = 1 / 2, R = 2, M = 8, start = 1000, last_ts = 1000,
      pos = 0, total = 0, z = 0, l = [[], [], []], L = []\<rparr> 7 1000
     = Inr (REDIS_OK, \<lparr>expire = 1, N = 2, E = 1 / 2, R = 2, M = 8, start = 1000, last_ts = 1000,
      pos = 0, total = 7, z = 0, l = [[], [\<lparr>ipos = 0, iv = 7, iz = 7\<rparr>], []],
      L = [\<lparr>ipos = 0, iv = 7, iz = 7\<rparr>]\<rparr>)
   \<and> wvincrbyCommand_incr (\<lambda>n e r. 2) 9223372036854775808 True
     \<lparr>expire = 1, N = 2, E = 1 / 2, R = 2, M = 8, start = 1000, last_ts = 1000,
      pos = 0, total = 0, z = 0, l = [[], [], []], L = []\<rparr> 7 1000
     = Inr (TooBigErr, \<lparr>expire = 1, N = 2, E = 1 / 2, R = 2, M = 8, start = 1000,
      last_ts = 1000, pos = 0, total = 0, z = 0, l = [[], [], []], L = []\<rparr>)
   \<and> waveSet (\<lambda>n e r. 2) 9223372036854775808 True
     \<lparr>expire = 1, N = 2, E = 1 / 2, R = 2, M = 8, start = 1000, last_ts = 1000,
      pos = 0, total = 9223372036854775807, z = 0,
      l = [[], [], [\<lparr>ipos = 0, iv = 9223372036854775807, iz = 7\<rparr>]],
      L = [\<lparr>ipos = 0, iv = 9223372036854775807, iz = 7\<rparr>]\<rparr> 9223372036854775807 1000
     = Inr (REDIS_OK, \<lparr>expire = 1, N = 2, E = 1 / 2, R = 2, M = 8, start = 1000, last_ts = 1000,
      pos = 0, total = - 2, z = 0,
      l = [[], [], [\<lparr>ipos = 0, iv = 9223372036854775807, iz = - 2\<rparr>,
                    \<lparr>ipos = 0, iv = 9223372036854775807, iz = 7\<rparr>]],
      L = [\<lparr>ipos = 0, iv = 9223372036854775807, iz = 7\<rparr>,
           \<lparr>ipos = 0, iv = 9223372036854775807, iz = - 2\<rparr>]\<rparr>)"
  using waveSet_admits_beyond_R[of "\<lambda>n e r. 2"
     "\<lparr>expire = 1, N = 2, E = 1 / 2, R = 2, M = 8, start = 1000, last_ts = 1000,
      pos = 0, total = 0, z = 0, l = [[], [], []], L = []\<rparr>" 7 1000 9223372036854775808]
  by (simp add: wave_ok_def waveSet_def waveNumLevels_def advancePos_def expireOld_def admit_def
      waveComputeTotalLevel_def floor_log_def exp_ceilings_def word_le_nat_alt
      evictTail_def waveLevelMaxPositions_half waveitemCreate_def
      wvincrbyCommand_incr_def Let_def wrap64_def smod_int_alt_def)

subsection \<open>Capacity of a level queue\<close>

text \<open>
  C2. The level queues are to hold at most \<open>waveLevelMaxPositions E\<close> triples. \<open>waveSet\<close>
  evicts the tail only when the queue is already longer than that, so a queue reaches
  one more: with \<open>E = 1/2\<close> (capacity 3) and one level, four inserts of 1 at the start
  timestamp leave four triples in \<open>l[0]\<close>.
\<close>

theorem level_queue_exceeds_capacity:
  "case create_and_apply (\<lambda>n e r. 0) ninf 0 1 (1 / 2) 1 1000 1
          [Set True 1 1000, Set True 1 1000, Set True 1 1000, Set True 1 1000] of
     Inl err \<Rightarrow> False
   | Inr w \<Rightarrow> waveLevelMaxPositions (E w) = 3 \<and> map length (l w) = [4]"
  by (simp add: create_steps waveSet_steps level_steps)

subsection \<open>The global list and the level queues\<close>

lemma level_of_expired_two_levels:
  "waveComputeTotalLevel ninf t 0 (Suc (Suc 0)) = (if ninf = 0 then 0 else 1)"
proof -
  have "NOT (word_of_int t :: 64 word) XOR NOT (word_of_int (t + 0)) = 0" by simp
  then have "waveComputeTotalLevel ninf t 0 (Suc (Suc 0)) = (if ninf \<ge> 2 then 1 else unat ninf)"
    by (simp add: waveComputeTotalLevel_def floor_log_def)
  moreover have "unat ninf = 1" if "\<not> ninf \<ge> 2" "ninf \<noteq> 0"
  proof -
    from that(1) have "unat ninf < 2" by (simp add: not_le word_less_nat_alt)
    moreover from that(2) have "unat ninf \<noteq> 0" by (simp add: unat_eq_0)
    ultimately show ?thesis by simp
  qed
  ultimately show ?thesis by auto
qed

lemma levels_of_three_inserts:
  "waveComputeTotalLevel ninf 0 1 (Suc (Suc 0)) = 0"
  "waveComputeTotalLevel ninf 1 1 (Suc (Suc 0)) = 1"
  "waveComputeTotalLevel ninf 2 1 (Suc (Suc 0)) = 0"
  by (simp_all add: waveComputeTotalLevel_def floor_log_def exp_ceilings_def)

text \<open>
  C3. The expiry of the head of \<open>L\<close> searches the queue of the level of \<open>(item->z, 0)\<close>, not
  the queue the item was filed in. With two levels, window 4 and inserts of 1 at
  timestamps 1000, 1001 and 1006 (start 1000), the first triple is filed at level 0 and
  the second at level 1; the third insert expires both from \<open>L\<close>, and whatever level the
  search lands on, one of the two stays in its queue: \<open>L\<close> has one triple and the level
  queues have two.
\<close>

theorem expiry_misses_level_queue:
  "case create_and_apply (\<lambda>n e r. 1) ninf 0 4 (1 / 4) 1 1000 1
          [Set True 1 1000, Set True 1 1001, Set True 1 1006] of
     Inl err \<Rightarrow> False
   | Inr w \<Rightarrow> L w = [\<lparr>ipos = 6, iv = 1, iz = 3\<rparr>]
       \<and> (l w = [[\<lparr>ipos = 6, iv = 1, iz = 3\<rparr>], [\<lparr>ipos = 1, iv = 1, iz = 2\<rparr>]]
          \<or> l w = [[\<lparr>ipos = 6, iv = 1, iz = 3\<rparr>, \<lparr>ipos = 0, iv = 1, iz = 1\<rparr>], []])
       \<and> length (L w) = 1 \<and> sum_list (map length (l w)) = 2"
proof -
  let ?cl = "\<lambda>(n::int) (e::rat) (r::int). 1::nat"
  let ?a = "\<lparr>ipos = 0, iv = 1, iz = 1\<rparr>"
  let ?b = "\<lparr>ipos = 1, iv = 1, iz = 2\<rparr>"
  let ?c = "\<lparr>ipos = 6, iv = 1, iz = 3\<rparr>"
  let ?w0 = "\<lparr>expire = 1, N = 4, E = 1 / 4, R = 1, M = 8, start = 1000, last_ts = 1000,
              pos = 0, total = 0, z = 0, l = [[], []], L = []\<rparr>"
  let ?w1 = "\<lparr>expire = 1, N = 4, E = 1 / 4, R = 1, M = 8, start = 1000, last_ts = 1000,
              pos = 0, total = 1, z = 0, l = [[?a], []], L = [?a]\<rparr>"
  let ?w2 = "\<lparr>expire = 1, N = 4, E = 1 / 4, R = 1, M = 8, start = 1000, last_ts = 1001,
              pos = 1, total = 2, z = 0, l = [[?a], [?b]], L = [?a, ?b]\<rparr>"
  let ?w3 = "\<lparr>expire = 1, N = 4, E = 1 / 4, R = 1, M = 8, start = 1000, last_ts = 1006,
              pos = 6, total = 3, z = 2,
              l = (if ninf = 0 then [[?c], [?b]] else [[?c, ?a], []]), L = [?c]\<rparr>"
  have c: "waveCreate ?cl 0 4 (1 / 4) 1 1000 1 = Inr ?w0"
    by (simp add: waveCreate_def waveNumLevels_def waveModulo_def LLONG_MAX_def wrap64_def
        waveModulo_loop.simps)
  have s1: "waveSet ?cl ninf True ?w0 1 1000 = Inr (REDIS_OK, ?w1)"
    by (simp add: waveSet_steps levels_of_three_inserts)
  have s2: "waveSet ?cl ninf True ?w1 1 1001 = Inr (REDIS_OK, ?w2)"
    by (simp add: waveSet_steps levels_of_three_inserts)
  have s3: "waveSet ?cl ninf True ?w2 1 1006 = Inr (REDIS_OK, ?w3)"
    by (simp add: waveSet_steps levels_of_three_inserts level_of_expired_two_levels)
  have "create_and_apply ?cl ninf 0 4 (1 / 4) 1 1000 1
          [Set True 1 1000, Set True 1 1001, Set True 1 1006] = Inr ?w3"
    by (simp only: create_and_apply_def c s1 s2 s3 sum.case prod.case apply_ops.simps
        apply_op.simps)
  then show ?thesis by simp
qed

subsection \<open>The bound of the query\<close>

lemma sum_list_remove1_le:
  "(\<And>i. i \<in> set xs \<Longrightarrow> 0 \<le> f i) \<Longrightarrow> sum_list (map f (remove1 x xs)) \<le> (sum_list (map f xs) :: int)"
proof (induction xs)
  case Nil
  then show ?case by simp
next
  case (Cons y ys)
  then have "sum_list (map f (remove1 x ys)) \<le> sum_list (map f ys)" "0 \<le> f y" by simp_all
  then show ?case by simp
qed

lemma sum_list_filter_le:
  "(\<And>i. i \<in> set xs \<Longrightarrow> 0 \<le> f i)
   \<Longrightarrow> 0 \<le> sum_list (map f (filter P xs)) \<and> sum_list (map f (filter P xs)) \<le> (sum_list (map f xs) :: int)"
proof (induction xs)
  case Nil
  then show ?case by simp
next
  case (Cons y ys)
  then have "0 \<le> sum_list (map f (filter P ys)) \<and> sum_list (map f (filter P ys)) \<le> sum_list (map f ys)"
    "0 \<le> f y" by simp_all
  then show ?case by simp
qed

lemma walkHead_in: "walkHead b x xs \<in> set (x # xs)"
  by (induction xs arbitrary: x) auto

text \<open>The invariants of this section and the next do not depend on the level an insert
  selects or on the capacity of a queue: of the eviction they use that it takes at most
  one triple out of \<open>L\<close>, and of the expiry that it takes a prefix off \<open>L\<close>.\<close>

lemma admit_Inr:
  assumes "admit ninf nl alloc w v' = Inr (st, w')"
  shows "\<exists>qs ls. (ls = L w \<or> (\<exists>x. ls = remove1 x (L w)))
           \<and> w' = w\<lparr>total := wrap64 (total w + v'), l := qs,
                     L := ls @ (if alloc
                                then [waveitemCreate (pos w) v' (wrap64 (total w + v') smod M w)]
                                else [])\<rparr>"
proof -
  let ?j = "waveComputeTotalLevel ninf (total w) v' nl"
  let ?new = "waveitemCreate (pos w) v' (wrap64 (total w + v') smod M w)"
  from assms have j: "?j < length (l w)"
    by (auto simp: admit_def Let_def split: if_splits)
  obtain qs ls where ev: "evictTail (waveLevelMaxPositions (E w)) ?j (l w) (L w) = (qs, ls)"
    by (cases "evictTail (waveLevelMaxPositions (E w)) ?j (l w) (L w)")
  then have ls: "ls = L w \<or> (\<exists>x. ls = remove1 x (L w))"
    by (auto simp: evictTail_def split: if_splits)
  show ?thesis
  proof (cases alloc)
    case True
    with assms j ev
    have "w' = w\<lparr>total := wrap64 (total w + v'), l := qs[?j := ?new # qs ! ?j],
                 L := ls @ [?new]\<rparr>"
      by (simp add: admit_def Let_def)
    with ls True show ?thesis by auto
  next
    case False
    with assms j ev
    have "w' = w\<lparr>total := wrap64 (total w + v'), l := qs, L := ls\<rparr>"
      by (simp add: admit_def Let_def)
    with ls False show ?thesis by auto
  qed
qed

lemma sums_in_range_create:
  assumes "waveCreate cl now n e r ts ex = Inr w"
  shows "sums_in_range w \<and> sums_unreduced w"
  using assms waveModulo_pos[of n r]
  by (auto simp: waveCreate_def Let_def sums_in_range_def sums_unreduced_def split: sum.splits)

lemma sums_in_range_purge:
  assumes "wavePurgeLists cl w = Inr w'" "0 < M w" "0 \<le> z w" "z w \<le> total w" "total w < 2 ^ 62"
  shows "sums_in_range w' \<and> sums_unreduced w'"
proof -
  from wavePurgeLists_Inr[OF assms(1)] obtain qs where "w' = w\<lparr>l := qs, L := []\<rparr>" by blast
  with assms(2-5) show ?thesis by (simp add: sums_in_range_def sums_unreduced_def)
qed

lemma sums_in_range_expireOld:
  assumes "sums_in_range w" "expireOld ninf nl w = Inr w2"
  shows "sums_in_range w2"
proof -
  from expireOld_Inr[OF assms(2)] obtain pre where
    pre: "L w = pre @ L w2" and zz: "z w2 = z w \<or> z w2 \<in> iz ` set (L w)"
    and eq: "w2 = w\<lparr>z := z w2, l := l w2, L := L w2\<rparr>" by blast
  have f: "M w2 = M w" "total w2 = total w" by (subst eq, simp)+
  from assms(1)
  have all: "\<forall>i \<in> set (L w). 0 < iv i \<and> iv i \<le> total w \<and> 0 \<le> iz i \<and> iz i \<le> total w"
    and zb: "0 \<le> z w" "z w \<le> total w" and m: "0 < M w" and r: "total w < 2 ^ 62"
    and s: "sum_list (map iv (L w)) \<le> total w"
    by (simp_all add: sums_in_range_def list_all_iff)
  have z2: "0 \<le> z w2 \<and> z w2 \<le> total w"
    using zz
  proof
    assume "z w2 = z w" with zb show ?thesis by simp
  next
    assume "z w2 \<in> iz ` set (L w)"
    then obtain i where "i \<in> set (L w)" "z w2 = iz i" by auto
    with all have "0 \<le> iz i" "iz i \<le> total w" by auto
    with \<open>z w2 = iz i\<close> show ?thesis by simp
  qed
  have all2: "\<forall>i \<in> set (L w2). 0 < iv i \<and> iv i \<le> total w \<and> 0 \<le> iz i \<and> iz i \<le> total w"
    using all pre by auto
  have "0 \<le> iv i" if "i \<in> set pre" for i
  proof -
    from that have "i \<in> set (L w)" by (simp add: pre)
    with all have "0 < iv i" by blast
    then show ?thesis by simp
  qed
  then have "0 \<le> sum_list (map iv pre)"
    by (intro sum_list_nonneg) auto
  then have "sum_list (map iv (L w2)) \<le> sum_list (map iv (L w))"
    by (simp add: pre)
  with s have s2: "sum_list (map iv (L w2)) \<le> total w" by simp
  from m z2 all2 s2 r show ?thesis
    by (simp add: sums_in_range_def f list_all_iff)
qed

lemma sums_unreduced_expireOld:
  assumes "sums_unreduced w" "expireOld ninf nl w = Inr w2"
  shows "sums_unreduced w2"
proof -
  from expireOld_Inr[OF assms(2)] obtain pre where pre: "L w = pre @ L w2" by blast
  with assms(1) show ?thesis by (simp add: sums_unreduced_def)
qed

lemma sums_in_range_admit:
  assumes "sums_in_range w" "admit ninf nl alloc w v' = Inr (st, w')" "0 < v'"
    "total w + v' < 2 ^ 62"
  shows "sums_in_range w'"
proof -
  let ?new = "waveitemCreate (pos w) v' (wrap64 (total w + v') smod M w)"
  from admit_Inr[OF assms(2)] obtain qs ls where
    ls: "ls = L w \<or> (\<exists>x. ls = remove1 x (L w))"
    and eq: "w' = w\<lparr>total := wrap64 (total w + v'), l := qs,
                      L := ls @ (if alloc then [?new] else [])\<rparr>"
    by blast
  from assms(1)
  have all: "\<forall>i \<in> set (L w). 0 < iv i \<and> iv i \<le> total w \<and> 0 \<le> iz i \<and> iz i \<le> total w"
    and zb: "0 \<le> z w" "z w \<le> total w" and m: "0 < M w"
    and s: "sum_list (map iv (L w)) \<le> total w"
    by (simp_all add: sums_in_range_def list_all_iff)
  have t0: "0 \<le> total w" using zb by simp
  have wr: "wrap64 (total w + v') = total w + v'"
    using t0 assms(3,4) by (intro wrap64_id) simp_all
  have sub: "set ls \<subseteq> set (L w)"
    using ls set_remove1_subset by fastforce
  have sl: "sum_list (map iv ls) \<le> sum_list (map iv (L w))"
    using ls
  proof
    assume "ls = L w" then show ?thesis by simp
  next
    assume "\<exists>x. ls = remove1 x (L w)"
    then obtain x where "ls = remove1 x (L w)" by blast
    moreover have "sum_list (map iv (remove1 x (L w))) \<le> sum_list (map iv (L w))"
      using all by (intro sum_list_remove1_le) (auto intro: less_imp_le)
    ultimately show ?thesis by simp
  qed
  have zn: "(total w + v') smod M w = (total w + v') mod M w"
    using t0 assms(3) m by (simp add: smod_nonneg)
  have zr: "0 \<le> (total w + v') mod M w" "(total w + v') mod M w \<le> total w + v'"
    using t0 assms(3) m by (simp_all add: zmod_le_nonneg_dividend)
  have new: "iv ?new = v'" "iz ?new = (total w + v') mod M w"
    by (simp_all add: waveitemCreate_def wr zn)
  have all': "\<forall>i \<in> set (ls @ (if alloc then [?new] else [])).
      0 < iv i \<and> iv i \<le> total w + v' \<and> 0 \<le> iz i \<and> iz i \<le> total w + v'"
  proof
    fix i assume "i \<in> set (ls @ (if alloc then [?new] else []))"
    then consider "i \<in> set ls" | "i = ?new" by (auto split: if_splits)
    then show "0 < iv i \<and> iv i \<le> total w + v' \<and> 0 \<le> iz i \<and> iz i \<le> total w + v'"
    proof cases
      case 1
      with sub all have "0 < iv i \<and> iv i \<le> total w \<and> 0 \<le> iz i \<and> iz i \<le> total w" by auto
      with assms(3) show ?thesis by simp
    next
      case 2
      with new assms(3) t0 zr show ?thesis by simp
    qed
  qed
  have s': "sum_list (map iv (ls @ (if alloc then [?new] else []))) \<le> total w + v'"
    using sl s assms(3) new by simp
  have f: "M w' = M w" "z w' = z w" "total w' = total w + v'"
    "L w' = ls @ (if alloc then [?new] else [])"
    by (simp_all add: eq wr)
  show ?thesis
    unfolding sums_in_range_def f list_all_iff
    using m zb assms(3,4) all' s' by simp
qed

lemma sums_unreduced_admit:
  assumes "sums_in_range w" "sums_unreduced w" "admit ninf nl alloc w v' = Inr (st, w')"
    "0 < v'" "total w + v' < 2 ^ 62" "total w + v' < M w"
  shows "sums_unreduced w'"
proof -
  let ?new = "waveitemCreate (pos w) v' (wrap64 (total w + v') smod M w)"
  from admit_Inr[OF assms(3)] obtain qs ls where
    ls: "ls = L w \<or> (\<exists>x. ls = remove1 x (L w))"
    and eq: "w' = w\<lparr>total := wrap64 (total w + v'), l := qs,
                      L := ls @ (if alloc then [?new] else [])\<rparr>"
    by blast
  from assms(1) have zb: "0 \<le> z w" "z w \<le> total w" and m: "0 < M w"
    by (simp_all add: sums_in_range_def)
  have t0: "0 \<le> total w" using zb by simp
  have wr: "wrap64 (total w + v') = total w + v'"
    using t0 assms(4,5) by (intro wrap64_id) simp_all
  have zn: "(total w + v') smod M w = total w + v'"
    using t0 assms(4,6) m by (simp add: smod_nonneg)
  have new: "iv ?new \<le> iz ?new"
    using t0 by (simp add: waveitemCreate_def wr zn)
  have sub: "set ls \<subseteq> set (L w)"
    using ls set_remove1_subset by fastforce
  from assms(2) have "\<forall>i \<in> set (L w). iv i \<le> iz i" by (simp add: sums_unreduced_def list_all_iff)
  with sub have "\<forall>i \<in> set ls. iv i \<le> iz i" by auto
  with new have "\<forall>i \<in> set (ls @ (if alloc then [?new] else [])). iv i \<le> iz i" by auto
  then show ?thesis by (simp add: sums_unreduced_def list_all_iff eq)
qed

lemma sums_in_range_advancePos: "sums_in_range w \<Longrightarrow> sums_in_range (advancePos w ts)"
  by (simp add: sums_in_range_def)

lemma sums_unreduced_advancePos: "sums_unreduced w \<Longrightarrow> sums_unreduced (advancePos w ts)"
  by (simp add: sums_unreduced_def)

lemma sums_in_range_waveSet:
  assumes "sums_in_range w" "waveSet cl ninf alloc w v' ts = Inr (st, w')"
    "total_below_2p62 w (Set alloc v' ts)"
  shows "sums_in_range w'
         \<and> (sums_unreduced w \<and> total_below_modulus w (Set alloc v' ts) \<longrightarrow> sums_unreduced w')"
proof (cases "v' \<le> 0 \<or> ts = 0 \<or> ts < start w")
  case True
  from waveSet_rejected[OF this, of cl ninf alloc] assms(2) have "w' = w" by simp
  with assms(1) show ?thesis by simp
next
  case False
  then have a: "0 < v'" "ts \<noteq> 0" "start w \<le> ts" by auto
  from waveSet_admitted[OF assms(2) a]
  obtain nl w2 where e: "expireOld ninf nl (advancePos w ts) = Inr w2"
    and ad: "admit ninf nl alloc w2 v' = Inr (st, w')" by blast
  from sums_in_range_expireOld[OF sums_in_range_advancePos[OF assms(1)] e]
  have b2: "sums_in_range w2" .
  from expireOld_Inr[OF e]
  have eq: "w2 = (advancePos w ts)\<lparr>z := z w2, l := l w2, L := L w2\<rparr>" by simp
  have f: "total w2 = total w" "M w2 = M w" by (subst eq, simp)+
  from assms(3) a have "total w + v' < 2 ^ 62" by simp
  with f have r: "total w2 + v' < 2 ^ 62" by simp
  from sums_in_range_admit[OF b2 ad a(1) r] have 1: "sums_in_range w'" .
  have 2: "sums_unreduced w'" if "sums_unreduced w" "total_below_modulus w (Set alloc v' ts)"
  proof -
    from sums_unreduced_expireOld[OF sums_unreduced_advancePos[OF that(1)] e]
    have u2: "sums_unreduced w2" .
    from that(2) a have "total w + v' < M w" by simp
    with f have "total w2 + v' < M w2" by simp
    from sums_unreduced_admit[OF b2 u2 ad a(1) r this] show ?thesis .
  qed
  from 1 2 show ?thesis by blast
qed

lemma sums_in_range_apply_op:
  assumes "sums_in_range w" "apply_op cl ninf w x = Inr w'" "total_below_2p62 w x"
  shows "sums_in_range w'
         \<and> (sums_unreduced w \<and> total_below_modulus w x \<longrightarrow> sums_unreduced w')"
proof (cases x)
  case (Set alloc v' ts)
  with assms(2) obtain st where "waveSet cl ninf alloc w v' ts = Inr (st, w')"
    by (auto split: sum.splits)
  from sums_in_range_waveSet[OF assms(1) this] assms(3) Set show ?thesis by blast
next
  case (Get ts fast)
  with assms show ?thesis by simp
next
  case (Resize n e r)
  with assms(2) obtain w1 where p: "wavePurgeLists cl w = Inr w1"
    and eq: "w' = w1\<lparr>N := n, E := e, R := r, M := waveModulo n r\<rparr>"
    by (auto simp: waveResize_def split: sum.splits)
  from assms(1) have "0 < M w" "0 \<le> z w" "z w \<le> total w" "total w < 2 ^ 62"
    by (simp_all add: sums_in_range_def)
  from sums_in_range_purge[OF p this] have "sums_in_range w1 \<and> sums_unreduced w1" .
  then show ?thesis using waveModulo_pos[of n r]
    by (simp add: eq sums_in_range_def sums_unreduced_def)
next
  case (Reset now1 now2)
  with assms(2) have p: "wavePurgeLists cl (w\<lparr>start := now1, last_ts := now2, pos := 0, total := 0, z := 0\<rparr>) = Inr w'"
    by (simp add: waveReset_def)
  from assms(1) have m: "0 < M w" by (simp add: sums_in_range_def)
  from sums_in_range_purge[OF p] m show ?thesis by simp
qed

lemma sums_in_range_apply_ops:
  "sums_in_range w \<Longrightarrow> ops_within total_below_2p62 cl ninf w xs
   \<Longrightarrow> apply_ops cl ninf w xs = Inr w'
   \<Longrightarrow> sums_in_range w'
       \<and> (sums_unreduced w \<and> ops_within total_below_modulus cl ninf w xs \<longrightarrow> sums_unreduced w')"
proof (induction xs arbitrary: w)
  case Nil
  then show ?case by simp
next
  case (Cons x xs)
  from Cons.prems(3) obtain w1 where w1: "apply_op cl ninf w x = Inr w1"
    and r: "apply_ops cl ninf w1 xs = Inr w'"
    by (auto split: sum.splits)
  from Cons.prems(2) w1 have p: "total_below_2p62 w x"
    and o: "ops_within total_below_2p62 cl ninf w1 xs" by simp_all
  from sums_in_range_apply_op[OF Cons.prems(1) w1 p]
  have 1: "sums_in_range w1" "sums_unreduced w \<and> total_below_modulus w x \<longrightarrow> sums_unreduced w1"
    by simp_all
  from Cons.IH[OF 1(1) o r]
  have 2: "sums_in_range w'"
    "sums_unreduced w1 \<and> ops_within total_below_modulus cl ninf w1 xs \<longrightarrow> sums_unreduced w'"
    by simp_all
  have "sums_unreduced w'"
    if "sums_unreduced w" "ops_within total_below_modulus cl ninf w (x # xs)"
  proof -
    from that(2) w1 have "total_below_modulus w x"
      "ops_within total_below_modulus cl ninf w1 xs" by simp_all
    with that(1) 1(2) 2(2) show ?thesis by blast
  qed
  with 2(1) show ?case by blast
qed

lemma fast_estimate_nonneg:
  assumes "0 \<le> t" "t < 2 ^ 62" "0 \<le> z1" "z1 \<le> t" "0 \<le> z2" "z2 \<le> t" "0 < v2" "v2 \<le> t"
  shows "0 \<le> fast_estimate t z1 z2 v2"
proof -
  have w1: "wrap64 (z1 + z2) = z1 + z2" using assms by (intro wrap64_id) simp_all
  have w2: "wrap64 (z1 + z2 - v2) = z1 + z2 - v2" using assms by (intro wrap64_id) simp_all
  define q where "q = (z1 + z2 - v2) sdiv 2"
  have qb: "- (2 ^ 61) \<le> q" "q \<le> t"
    using sdiv_2_bounds[of "2 ^ 61" "z1 + z2 - v2" t] assms by (simp_all add: q_def)
  define dq where "dq = to_double (of_int q)"
  define dt where "dt = to_double (of_int t)"
  have "(of_int q :: rat) \<le> of_int t" using qb(2) by simp
  then have dqt: "dq \<le> dt" unfolding dq_def dt_def by (rule to_double_mono)
  have "(of_int t :: rat) \<le> of_int (2 ^ 62)" using assms(2) by (simp only: of_int_le_iff)
  then have "(of_int t :: rat) \<le> 2 ^ 62" by simp
  then have "dt \<le> to_double (2 ^ 62)" unfolding dt_def by (rule to_double_mono)
  then have dtu: "dt \<le> 2 ^ 62" by (simp only: to_double_powers)
  have "(of_int (- (2 ^ 61)) :: rat) \<le> of_int q" using qb(1) by (simp only: of_int_le_iff)
  then have "(- (2 ^ 61) :: rat) \<le> of_int q" by simp
  then have "to_double (- (2 ^ 61)) \<le> dq" unfolding dq_def by (rule to_double_mono)
  then have dql: "- (2 ^ 61) \<le> dq" by (simp only: to_double_minus to_double_powers)
  define fl :: rat where "fl = of_int \<lfloor>dq\<rfloor>"
  have fl1: "fl \<le> dq" by (simp add: fl_def)
  have "(of_int (- (2 ^ 61)) :: rat) \<le> dq" using dql by simp
  then have "- (2 ^ 61) \<le> \<lfloor>dq\<rfloor>" by (simp only: le_floor_iff)
  then have "(of_int (- (2 ^ 61)) :: rat) \<le> of_int \<lfloor>dq\<rfloor>" by (simp only: of_int_le_iff)
  then have fl2: "- (2 ^ 61) \<le> fl" by (simp add: fl_def)
  define d where "d = to_double (dt - fl)"
  have "0 \<le> dt - fl" using fl1 dqt by simp
  then have "to_double 0 \<le> d" unfolding d_def by (rule to_double_mono)
  then have d0: "0 \<le> d" by simp
  have "dt - fl \<le> 2 ^ 62 + 2 ^ 61" using dtu fl2 by simp
  then have "d \<le> to_double (2 ^ 62 + 2 ^ 61)" unfolding d_def by (rule to_double_mono)
  then have "d \<le> 2 ^ 62 + 2 ^ 61" by (simp only: to_double_powers)
  then have d1: "d < 2 ^ 63" by simp
  have "fast_estimate t z1 z2 v2 = ll_of_double d"
    by (simp add: fast_estimate_def Let_def w1 w2 q_def dq_def dt_def fl_def d_def)
  also have "\<dots> = \<lfloor>d\<rfloor>" using d0 d1 by (rule ll_of_double_nonneg)
  finally show ?thesis using d0 by simp
qed

lemma fast_estimate_exact:
  assumes "0 \<le> t" "t \<le> 2 ^ 53" "0 \<le> z1" "z1 \<le> t" "0 \<le> z2" "z2 \<le> t" "0 < v2" "v2 \<le> z2"
  shows "fast_estimate t z1 z2 v2 = t - (z1 + z2 - v2) div 2"
proof -
  have w1: "wrap64 (z1 + z2) = z1 + z2" using assms by (intro wrap64_id) simp_all
  have w2: "wrap64 (z1 + z2 - v2) = z1 + z2 - v2" using assms by (intro wrap64_id) simp_all
  define q where "q = (z1 + z2 - v2) div 2"
  have qs: "(z1 + z2 - v2) sdiv 2 = q" using assms by (simp add: q_def sdiv_nonneg)
  have qb: "0 \<le> q" "q \<le> t" using assms by (simp_all add: q_def)
  have dq: "to_double (of_int q) = of_int q" using qb assms(2) by (intro to_double_of_int) simp
  have dt: "to_double (of_int t) = of_int t" using assms(1,2) by (intro to_double_of_int) simp
  have "to_double (of_int (t - q)) = of_int (t - q)"
    using qb assms(2) by (intro to_double_of_int) simp
  then have dd: "to_double (of_int t - of_int q) = of_int (t - q)" by simp
  have "ll_of_double (of_int (t - q)) = \<lfloor>(of_int (t - q) :: rat)\<rfloor>"
  proof (rule ll_of_double_nonneg)
    show "(0::rat) \<le> of_int (t - q)" using qb by simp
    have "t - q < 2 ^ 63" using qb assms(2) by simp
    then have "(of_int (t - q) :: rat) < of_int (2 ^ 63)" by (simp only: of_int_less_iff)
    then show "(of_int (t - q) :: rat) < 2 ^ 63" by simp
  qed
  then have ll: "ll_of_double (of_int (t - q)) = t - q" by simp
  have "fast_estimate t z1 z2 v2
      = ll_of_double (to_double (to_double (of_int t) - of_int \<lfloor>to_double (rat_of_int q)\<rfloor>))"
    by (simp only: fast_estimate_def Let_def w1 w2 qs)
  also have "\<dots> = ll_of_double (to_double (of_int t - of_int q))"
    by (simp only: dq dt floor_of_int)
  also have "\<dots> = t - q" by (simp only: dd ll)
  finally show ?thesis by (simp only: q_def)
qed

lemma waveGet_cases:
  "waveGet w ts fast = 0
   \<or> waveGet w ts fast = wrap64 (total w - z w)
   \<or> (\<exists>h \<in> set (L w).
         waveGet w ts fast = wrap64 (wrap64 (total w - iz h) + iv h)
         \<or> waveGet w ts fast = wrap64 (total w - iz h)
         \<or> (fast \<and> waveGet w ts fast = fast_estimate (total w) (z w) (iz h) (iv h)))
   \<or> (\<exists>P. waveGet w ts fast
              = wrap64 (total w - wrap64 (sum_list (map iv (filter P (L w))))))
   \<or> (\<exists>P. waveGet w ts fast = wrap64 (sum_list (map iv (filter P (L w)))))"
proof (cases "L w")
  case Nil
  then show ?thesis by (simp add: waveGet_def)
next
  case (Cons first rest)
  define hd_item where "hd_item = walkHead (wrap64 (ts - N w)) first rest"
  define P1 where "P1 = (\<lambda>item :: waveitem. ipos item \<le> wrap64 (ts - (start w smod M w)))"
  define P2 where "P2 = (\<lambda>item :: waveitem. ipos item > wrap64 (wrap64 (ts - start w) - (N w smod M w)))"
  have h: "hd_item \<in> set (L w)"
    using walkHead_in[of "wrap64 (ts - N w)" first rest] Cons by (simp add: hd_item_def)
  define past_sum where "past_sum = sum_list (map iv (filter P1 (rev (L w))))"
  define fut_sum where "fut_sum = sum_list (map iv (filter P2 (L w)))"
  have r: "past_sum = sum_list (map iv (filter P1 (L w)))"
    by (simp add: past_sum_def rev_filter[symmetric] rev_map[symmetric])
  have g: "waveGet w ts fast =
      (if ts = 0 then 0
       else if ts < start w then 0
       else if ts \<le> wrap64 (last_ts w - N w) then 0
       else if ts \<ge> wrap64 (last_ts w + N w) then 0
       else if ts = last_ts w then wrap64 (total w - z w)
       else if ipos hd_item = wrap64 (wrap64 (ts - N w) + 1)
         then wrap64 (wrap64 (total w - iz hd_item) + iv hd_item)
       else if ipos hd_item = wrap64 (ts - N w) then wrap64 (total w - iz hd_item)
       else if ts = pos w then wrap64 (total w - z w)
       else if fast then fast_estimate (total w) (z w) (iz hd_item) (iv hd_item)
       else if ts < last_ts w then wrap64 (total w - wrap64 past_sum)
       else wrap64 fut_sum)"
    by (simp add: waveGet_def Cons past_sum_def fut_sum_def hd_item_def P1_def P2_def Let_def)
  have p: "\<exists>P. wrap64 (total w - wrap64 past_sum)
               = wrap64 (total w - wrap64 (sum_list (map iv (filter P (L w)))))"
    unfolding r by blast
  have f: "\<exists>P. wrap64 fut_sum = wrap64 (sum_list (map iv (filter P (L w))))"
    unfolding fut_sum_def by blast
  show ?thesis
    unfolding g using h p f by auto
qed

lemma waveGet_nonneg:
  assumes "sums_in_range w"
  shows "0 \<le> waveGet w ts fast"
proof -
  from assms
  have all: "\<forall>i \<in> set (L w). 0 < iv i \<and> iv i \<le> total w \<and> 0 \<le> iz i \<and> iz i \<le> total w"
    and zb: "0 \<le> z w" "z w \<le> total w" and r: "total w < 2 ^ 62"
    and s: "sum_list (map iv (L w)) \<le> total w"
    by (simp_all add: sums_in_range_def list_all_iff)
  have t0: "0 \<le> total w" using zb by simp
  have nn: "\<And>i. i \<in> set (L w) \<Longrightarrow> 0 \<le> iv i" using all by (auto intro: less_imp_le)
  have sb: "0 \<le> sum_list (map iv (filter P (L w)))
      \<and> sum_list (map iv (filter P (L w))) \<le> total w" for P
    using sum_list_filter_le[of "L w" iv P] nn s by simp
  have a: "0 \<le> wrap64 (total w - z w)"
  proof -
    have "wrap64 (total w - z w) = total w - z w" using zb r by (intro wrap64_id) simp_all
    with zb show ?thesis by simp
  qed
  have b: "0 \<le> wrap64 (wrap64 (total w - iz h) + iv h) \<and> 0 \<le> wrap64 (total w - iz h)
      \<and> 0 \<le> fast_estimate (total w) (z w) (iz h) (iv h)" if "h \<in> set (L w)" for h
  proof -
    from that all have h: "0 < iv h" "iv h \<le> total w" "0 \<le> iz h" "iz h \<le> total w" by auto
    have 1: "wrap64 (total w - iz h) = total w - iz h" using h r by (intro wrap64_id) simp_all
    have 2: "wrap64 (total w - iz h + iv h) = total w - iz h + iv h"
      using h r by (intro wrap64_id) simp_all
    from fast_estimate_nonneg[OF t0 r zb h(3,4,1,2)] 1 2 h show ?thesis by simp
  qed
  have c: "0 \<le> wrap64 (total w - wrap64 (sum_list (map iv (filter P (L w)))))" for P
  proof -
    have 1: "wrap64 (sum_list (map iv (filter P (L w)))) = sum_list (map iv (filter P (L w)))"
      using sb[of P] r by (intro wrap64_id) simp_all
    have "wrap64 (total w - sum_list (map iv (filter P (L w))))
        = total w - sum_list (map iv (filter P (L w)))"
      using sb[of P] r by (intro wrap64_id) simp_all
    with sb[of P] 1 show ?thesis by simp
  qed
  have d: "0 \<le> wrap64 (sum_list (map iv (filter P (L w))))" for P
  proof -
    have "wrap64 (sum_list (map iv (filter P (L w)))) = sum_list (map iv (filter P (L w)))"
      using sb[of P] r by (intro wrap64_id) simp_all
    with sb[of P] show ?thesis by simp
  qed
  from waveGet_cases[of w ts fast] a b c d show ?thesis by auto
qed

lemma waveGet_le_total:
  assumes "sums_in_range w" "sums_unreduced w" "fast \<longrightarrow> total w \<le> 2 ^ 53"
  shows "waveGet w ts fast \<le> total w"
proof -
  from assms(1)
  have all: "\<forall>i \<in> set (L w). 0 < iv i \<and> iv i \<le> total w \<and> 0 \<le> iz i \<and> iz i \<le> total w"
    and zb: "0 \<le> z w" "z w \<le> total w" and r: "total w < 2 ^ 62"
    and s: "sum_list (map iv (L w)) \<le> total w"
    by (simp_all add: sums_in_range_def list_all_iff)
  from assms(2) have un: "\<forall>i \<in> set (L w). iv i \<le> iz i"
    by (simp add: sums_unreduced_def list_all_iff)
  have t0: "0 \<le> total w" using zb by simp
  have nn: "\<And>i. i \<in> set (L w) \<Longrightarrow> 0 \<le> iv i" using all by (auto intro: less_imp_le)
  have sb: "0 \<le> sum_list (map iv (filter P (L w)))
      \<and> sum_list (map iv (filter P (L w))) \<le> total w" for P
    using sum_list_filter_le[of "L w" iv P] nn s by simp
  have a: "wrap64 (total w - z w) \<le> total w"
  proof -
    have "wrap64 (total w - z w) = total w - z w" using zb r by (intro wrap64_id) simp_all
    with zb show ?thesis by simp
  qed
  have b: "wrap64 (wrap64 (total w - iz h) + iv h) \<le> total w \<and> wrap64 (total w - iz h) \<le> total w
      \<and> (fast \<longrightarrow> fast_estimate (total w) (z w) (iz h) (iv h) \<le> total w)"
    if "h \<in> set (L w)" for h
  proof -
    from that all un have h: "0 < iv h" "iv h \<le> iz h" "0 \<le> iz h" "iz h \<le> total w" by auto
    have 1: "wrap64 (total w - iz h) = total w - iz h" using h r by (intro wrap64_id) simp_all
    have 2: "wrap64 (total w - iz h + iv h) = total w - iz h + iv h"
      using h r by (intro wrap64_id) simp_all
    have 3: "fast_estimate (total w) (z w) (iz h) (iv h) \<le> total w" if "fast"
    proof -
      from that assms(3) have "total w \<le> 2 ^ 53" by simp
      from fast_estimate_exact[OF t0 this zb h(3,4,1,2)]
      have "fast_estimate (total w) (z w) (iz h) (iv h) = total w - (z w + iz h - iv h) div 2" .
      moreover have "0 \<le> (z w + iz h - iv h) div 2" using zb h by simp
      ultimately show ?thesis by simp
    qed
    from 1 2 3 h show ?thesis by simp
  qed
  have c: "wrap64 (total w - wrap64 (sum_list (map iv (filter P (L w))))) \<le> total w" for P
  proof -
    have 1: "wrap64 (sum_list (map iv (filter P (L w)))) = sum_list (map iv (filter P (L w)))"
      using sb[of P] r by (intro wrap64_id) simp_all
    have "wrap64 (total w - sum_list (map iv (filter P (L w))))
        = total w - sum_list (map iv (filter P (L w)))"
      using sb[of P] r by (intro wrap64_id) simp_all
    with sb[of P] 1 show ?thesis by simp
  qed
  have d: "wrap64 (sum_list (map iv (filter P (L w)))) \<le> total w" for P
  proof -
    have "wrap64 (sum_list (map iv (filter P (L w)))) = sum_list (map iv (filter P (L w)))"
      using sb[of P] r by (intro wrap64_id) simp_all
    with sb[of P] show ?thesis by simp
  qed
  from waveGet_cases[of w ts fast] t0 a b c d show ?thesis by auto
qed

text \<open>
  C5, as the code has it. For a wave built by \<open>waveCreate\<close> and taken through any sequence
  of set, get, resize and reset during which the running total after each insert stays
  below \<open>2^62\<close>, every query is at least 0, for every timestamp and both values of the
  fast flag. When moreover the running total after each insert stays below the modulus
  \<open>M\<close> (so that the partial sum stored in a triple is the running total itself, not its
  remainder) and, for a fast query, the running total is at most \<open>2^53\<close> (so that it is a
  double), the query is at most the running total.
\<close>

theorem waveGet_within_total:
  assumes "waveCreate cl now n e r ts0 ex = Inr w0"
    "ops_within total_below_2p62 cl ninf w0 xs"
    "apply_ops cl ninf w0 xs = Inr w"
  shows "0 \<le> waveGet w ts fast
         \<and> (ops_within total_below_modulus cl ninf w0 xs \<and> (fast \<longrightarrow> total w \<le> 2 ^ 53)
              \<longrightarrow> waveGet w ts fast \<le> total w)"
proof -
  from sums_in_range_create[OF assms(1)] have c: "sums_in_range w0" "sums_unreduced w0"
    by simp_all
  from sums_in_range_apply_ops[OF c(1) assms(2) assms(3)] c(2)
  have i: "sums_in_range w"
    and u: "ops_within total_below_modulus cl ninf w0 xs \<longrightarrow> sums_unreduced w"
    by simp_all
  from i have "0 \<le> waveGet w ts fast" by (rule waveGet_nonneg)
  moreover have "waveGet w ts fast \<le> total w"
    if "ops_within total_below_modulus cl ninf w0 xs" "fast \<longrightarrow> total w \<le> 2 ^ 53"
    using i u that by (intro waveGet_le_total) simp_all
  ultimately show ?thesis by blast
qed

theorem waveGet_within_total_witness:
  "waveCreate (\<lambda>n e r. 2) 0 2 (1 / 2) 2 1000 1
     = Inr \<lparr>expire = 1, N = 2, E = 1 / 2, R = 2, M = 8, start = 1000, last_ts = 1000,
            pos = 0, total = 0, z = 0, l = [[], [], []], L = []\<rparr>
   \<and> ops_within total_below_2p62 (\<lambda>n e r. 2) 9223372036854775808
       \<lparr>expire = 1, N = 2, E = 1 / 2, R = 2, M = 8, start = 1000, last_ts = 1000,
        pos = 0, total = 0, z = 0, l = [[], [], []], L = []\<rparr>
       [Set True 2 1000, Set True 2 1003]
   \<and> ops_within total_below_modulus (\<lambda>n e r. 2) 9223372036854775808
       \<lparr>expire = 1, N = 2, E = 1 / 2, R = 2, M = 8, start = 1000, last_ts = 1000,
        pos = 0, total = 0, z = 0, l = [[], [], []], L = []\<rparr>
       [Set True 2 1000, Set True 2 1003]
   \<and> apply_ops (\<lambda>n e r. 2) 9223372036854775808
       \<lparr>expire = 1, N = 2, E = 1 / 2, R = 2, M = 8, start = 1000, last_ts = 1000,
        pos = 0, total = 0, z = 0, l = [[], [], []], L = []\<rparr>
       [Set True 2 1000, Set True 2 1003]
     = Inr \<lparr>expire = 1, N = 2, E = 1 / 2, R = 2, M = 8, start = 1000, last_ts = 1003,
            pos = 3, total = 4, z = 2,
            l = [[\<lparr>ipos = 0, iv = 2, iz = 2\<rparr>], [\<lparr>ipos = 3, iv = 2, iz = 4\<rparr>], []],
            L = [\<lparr>ipos = 3, iv = 2, iz = 4\<rparr>]\<rparr>
   \<and> (4 :: int) \<le> 2 ^ 53
   \<and> waveGet \<lparr>expire = 1, N = 2, E = 1 / 2, R = 2, M = 8, start = 1000, last_ts = 1003,
            pos = 3, total = 4, z = 2,
            l = [[\<lparr>ipos = 0, iv = 2, iz = 2\<rparr>], [\<lparr>ipos = 3, iv = 2, iz = 4\<rparr>], []],
            L = [\<lparr>ipos = 3, iv = 2, iz = 4\<rparr>]\<rparr> 1004 True = 2"
  using waveGet_within_total[of "\<lambda>n e r. 2" 0 2 "1 / 2" 2 1000 1
      "\<lparr>expire = 1, N = 2, E = 1 / 2, R = 2, M = 8, start = 1000, last_ts = 1000,
        pos = 0, total = 0, z = 0, l = [[], [], []], L = []\<rparr>"
      9223372036854775808 "[Set True 2 1000, Set True 2 1003]"
      "\<lparr>expire = 1, N = 2, E = 1 / 2, R = 2, M = 8, start = 1000, last_ts = 1003,
            pos = 3, total = 4, z = 2,
            l = [[\<lparr>ipos = 0, iv = 2, iz = 2\<rparr>], [\<lparr>ipos = 3, iv = 2, iz = 4\<rparr>], []],
            L = [\<lparr>ipos = 3, iv = 2, iz = 4\<rparr>]\<rparr>" 1004 True]
  by (simp add: create_steps waveSet_steps level_steps waveGet_steps)

text \<open>
  C5 as stated fails in three ways. Once the running total reaches the modulus: with
  \<open>N = 2\<close>, \<open>R = 2\<close> (so \<open>M = 8\<close>) and four inserts of 2 at the start timestamp 1000, the
  running total is 8 and the last triple stores the partial sum \<open>8 mod 8 = 0\<close>; the fast
  query at 1001 returns \<open>8 - (0 + 0 - 2)/2 = 9\<close>. Once the running total is not a double:
  with \<open>N = 2\<close>, \<open>R = 2^55\<close> (so \<open>M = 2^57\<close>) and one insert of \<open>2^53 + 3\<close>, the fast query
  at 1001 subtracts 0 from the running total taken to double, which is \<open>2^53 + 4\<close>. Once
  the arithmetic leaves the range of \<open>long long\<close>: with \<open>N = 1\<close>, \<open>R = 2^61\<close> and four
  inserts of \<open>2^61\<close>, the running total is \<open>2^63\<close> wrapped, that is \<open>- 2^63\<close>, and the query
  at the timestamp of the inserts returns it; and with \<open>N = 2000\<close>, \<open>R = 1\<close> (so \<open>M = 4096\<close>)
  and one insert of \<open>2^62\<close>, which \<open>waveSet\<close> admits, the running total \<open>2^62\<close> is in the
  range, and the query at 1999 returns \<open>total - z2 + v2 = 2^62 - 0 + 2^62\<close> wrapped.
\<close>

theorem waveGet_exceeds_total:
  "(case create_and_apply (\<lambda>n e r. 2) 9223372036854775808 0 2 (1 / 2) 2 1000 1
          [Set True 2 1000, Set True 2 1000, Set True 2 1000, Set True 2 1000] of
     Inl err \<Rightarrow> False
   | Inr w \<Rightarrow> total w = 8 \<and> waveGet w 1001 True = 9 \<and> \<not> waveGet w 1001 True \<le> total w)
   \<and> (case create_and_apply (\<lambda>n e r. 56) 9223372036854775808 0 2 (1 / 2) 36028797018963968
            1000 1 [Set True 9007199254740995 1000] of
     Inl err \<Rightarrow> False
   | Inr w \<Rightarrow> total w = 9007199254740995 \<and> total w < M w
       \<and> waveGet w 1001 True = 9007199254740996 \<and> \<not> waveGet w 1001 True \<le> total w)
   \<and> (case create_and_apply (\<lambda>n e r. 61) 9223372036854775808 0 1 (1 / 2) 2305843009213693952
            1000 1
          [Set True 2305843009213693952 1000, Set True 2305843009213693952 1000,
           Set True 2305843009213693952 1000, Set True 2305843009213693952 1000] of
     Inl err \<Rightarrow> False
   | Inr w \<Rightarrow> total w = - 9223372036854775808
       \<and> waveGet w 1000 False = - 9223372036854775808 \<and> \<not> 0 \<le> waveGet w 1000 False)
   \<and> (case create_and_apply (\<lambda>n e r. 11) 9223372036854775808 0 2000 (1 / 2) 1 1000 1
          [Set True 4611686018427387904 1000] of
     Inl err \<Rightarrow> False
   | Inr w \<Rightarrow> total w = 2 ^ 62
       \<and> waveGet w 1999 False = - 9223372036854775808 \<and> \<not> 0 \<le> waveGet w 1999 False)"
proof -
  have a: "case create_and_apply (\<lambda>n e r. 2) 9223372036854775808 0 2 (1 / 2) 2 1000 1
          [Set True 2 1000, Set True 2 1000, Set True 2 1000, Set True 2 1000] of
     Inl err \<Rightarrow> False
   | Inr w \<Rightarrow> total w = 8 \<and> waveGet w 1001 True = 9 \<and> \<not> waveGet w 1001 True \<le> total w"
    by (simp add: create_steps waveSet_steps level_steps waveGet_steps)
  have b: "case create_and_apply (\<lambda>n e r. 56) 9223372036854775808 0 2 (1 / 2) 36028797018963968
            1000 1 [Set True 9007199254740995 1000] of
     Inl err \<Rightarrow> False
   | Inr w \<Rightarrow> total w = 9007199254740995 \<and> total w < M w
       \<and> waveGet w 1001 True = 9007199254740996 \<and> \<not> waveGet w 1001 True \<le> total w"
    by (simp add: create_steps waveSet_steps level_steps waveGet_steps to_double_beyond_2p53)
  have c: "case create_and_apply (\<lambda>n e r. 61) 9223372036854775808 0 1 (1 / 2) 2305843009213693952
            1000 1
          [Set True 2305843009213693952 1000, Set True 2305843009213693952 1000,
           Set True 2305843009213693952 1000, Set True 2305843009213693952 1000] of
     Inl err \<Rightarrow> False
   | Inr w \<Rightarrow> total w = - 9223372036854775808
       \<and> waveGet w 1000 False = - 9223372036854775808 \<and> \<not> 0 \<le> waveGet w 1000 False"
    by (simp add: create_steps waveSet_steps level_steps waveGet_steps)
  have d: "case create_and_apply (\<lambda>n e r. 11) 9223372036854775808 0 2000 (1 / 2) 1 1000 1
          [Set True 4611686018427387904 1000] of
     Inl err \<Rightarrow> False
   | Inr w \<Rightarrow> total w = 2 ^ 62
       \<and> waveGet w 1999 False = - 9223372036854775808 \<and> \<not> 0 \<le> waveGet w 1999 False"
    by (simp add: create_steps waveSet_steps level_steps waveGet_steps)
  from a b c d show ?thesis by (intro conjI)
qed

subsection \<open>The order of the global list\<close>

lemma sorted_map_remove1: "sorted (map f xs) \<Longrightarrow> sorted (map f (remove1 x xs))"
proof (induction xs)
  case Nil
  then show ?case by simp
next
  case (Cons y ys)
  then have "sorted (map f (remove1 x ys))" by simp
  moreover have "set (remove1 x ys) \<subseteq> set ys" by (rule set_remove1_subset)
  ultimately show ?case using Cons.prems by auto
qed

lemma positions_ordered_create:
  assumes "waveCreate cl now n e r ts ex = Inr w"
  shows "positions_ordered w"
  using assms waveModulo_pos[of n r] waveModulo_le[of n r]
  by (auto simp: waveCreate_def Let_def positions_ordered_def split: sum.splits)

lemma positions_ordered_purge:
  assumes "wavePurgeLists cl w = Inr w'" "0 < M w" "M w \<le> LLONG_MAX"
    "pos w \<le> max 0 (last_ts w - start w)"
  shows "positions_ordered w'"
proof -
  from wavePurgeLists_Inr[OF assms(1)] obtain qs where "w' = w\<lparr>l := qs, L := []\<rparr>" by blast
  with assms(2-4) show ?thesis by (simp add: positions_ordered_def)
qed

lemma positions_ordered_advancePos:
  assumes "positions_ordered w" "ts - start w < M w"
  shows "positions_ordered (advancePos w ts)"
proof (cases "ts > start w \<and> ts > last_ts w")
  case True
  from assms(1) have m: "0 < M w" and mm: "M w \<le> LLONG_MAX"
    and srt: "sorted (map ipos (L w))"
    and all: "\<forall>i \<in> set (L w). ipos i \<le> pos w"
    and p: "pos w \<le> max 0 (last_ts w - start w)"
    by (simp_all add: positions_ordered_def list_all_iff)
  have wr: "wrap64 (ts - start w) = ts - start w"
    using True assms(2) mm by (intro wrap64_id) (simp_all add: LLONG_MAX_def)
  have "(ts - start w) smod M w = (ts - start w) mod M w"
    using True m by (simp add: smod_nonneg)
  also have "\<dots> = ts - start w"
    using True assms(2) by simp
  finally have np: "wrap64 (ts - start w) smod M w = ts - start w" by (simp only: wr)
  have "pos w \<le> ts - start w" using p True by (auto simp: max_def split: if_splits)
  with all have "\<forall>i \<in> set (L w). ipos i \<le> ts - start w" by auto
  with m mm srt True np show ?thesis
    by (simp add: advancePos_def positions_ordered_def list_all_iff)
next
  case False
  then have "advancePos w ts = w" by (auto simp: advancePos_def)
  with assms(1) show ?thesis by simp
qed

lemma positions_ordered_expireOld:
  assumes "positions_ordered w" "expireOld ninf nl w = Inr w2"
  shows "positions_ordered w2"
proof -
  from expireOld_Inr[OF assms(2)] obtain pre where
    pre: "L w = pre @ L w2" and eq: "w2 = w\<lparr>z := z w2, l := l w2, L := L w2\<rparr>" by blast
  have f: "M w2 = M w" "pos w2 = pos w" "last_ts w2 = last_ts w" "start w2 = start w"
    by (subst eq, simp)+
  from assms(1) have m: "0 < M w" and mm: "M w \<le> LLONG_MAX"
    and srt: "sorted (map ipos (L w))"
    and all: "\<forall>i \<in> set (L w). ipos i \<le> pos w"
    and p: "pos w \<le> max 0 (last_ts w - start w)"
    by (simp_all add: positions_ordered_def list_all_iff)
  from srt have "sorted (map ipos (L w2))" by (simp add: pre sorted_append)
  moreover from all have "\<forall>i \<in> set (L w2). ipos i \<le> pos w" by (simp add: pre)
  ultimately show ?thesis
    using m mm p by (simp add: positions_ordered_def f list_all_iff)
qed

lemma positions_ordered_admit:
  assumes "positions_ordered w" "admit ninf nl alloc w v' = Inr (st, w')"
  shows "positions_ordered w'"
proof -
  let ?new = "waveitemCreate (pos w) v' (wrap64 (total w + v') smod M w)"
  from admit_Inr[OF assms(2)] obtain qs ls where
    ls: "ls = L w \<or> (\<exists>x. ls = remove1 x (L w))"
    and eq: "w' = w\<lparr>total := wrap64 (total w + v'), l := qs,
                      L := ls @ (if alloc then [?new] else [])\<rparr>"
    by blast
  from assms(1) have m: "0 < M w" and mm: "M w \<le> LLONG_MAX"
    and srt: "sorted (map ipos (L w))"
    and all: "\<forall>i \<in> set (L w). ipos i \<le> pos w"
    and p: "pos w \<le> max 0 (last_ts w - start w)"
    by (simp_all add: positions_ordered_def list_all_iff)
  have sub: "set ls \<subseteq> set (L w)"
    using ls set_remove1_subset by fastforce
  have sl: "sorted (map ipos ls)"
    using ls srt by (auto intro: sorted_map_remove1)
  have all': "\<forall>i \<in> set ls. ipos i \<le> pos w" using all sub by auto
  have new: "ipos ?new = pos w" by (simp add: waveitemCreate_def)
  have s': "sorted (map ipos (ls @ (if alloc then [?new] else [])))"
    using sl all' new by (simp add: sorted_append)
  have a': "\<forall>i \<in> set (ls @ (if alloc then [?new] else [])). ipos i \<le> pos w"
    using all' new by (auto split: if_splits)
  have f: "M w' = M w" "pos w' = pos w" "last_ts w' = last_ts w" "start w' = start w"
    "L w' = ls @ (if alloc then [?new] else [])"
    by (simp_all add: eq)
  show ?thesis
    unfolding positions_ordered_def f list_all_iff
    using m mm p s' a' by simp
qed

lemma positions_ordered_waveSet:
  assumes "positions_ordered w" "waveSet cl ninf alloc w v' ts = Inr (st, w')"
    "ts - start w < M w"
  shows "positions_ordered w'"
proof (cases "v' \<le> 0 \<or> ts = 0 \<or> ts < start w")
  case True
  from waveSet_rejected[OF this, of cl ninf alloc] assms(2) have "w' = w" by simp
  with assms(1) show ?thesis by simp
next
  case False
  then have a: "0 < v'" "ts \<noteq> 0" "start w \<le> ts" by auto
  from waveSet_admitted[OF assms(2) a]
  obtain nl w2 where e: "expireOld ninf nl (advancePos w ts) = Inr w2"
    and ad: "admit ninf nl alloc w2 v' = Inr (st, w')" by blast
  from positions_ordered_expireOld[OF positions_ordered_advancePos[OF assms(1) assms(3)] e]
  have "positions_ordered w2" .
  from positions_ordered_admit[OF this ad] show ?thesis .
qed

lemma positions_ordered_apply_op:
  assumes "positions_ordered w" "apply_op cl ninf w x = Inr w'" "pos_below_modulus w x"
  shows "positions_ordered w'"
proof (cases x)
  case (Set alloc v' ts)
  with assms(2) obtain st where "waveSet cl ninf alloc w v' ts = Inr (st, w')"
    by (auto split: sum.splits)
  from positions_ordered_waveSet[OF assms(1) this] assms(3) Set show ?thesis by simp
next
  case (Get ts fast)
  with assms show ?thesis by simp
next
  case (Resize n e r)
  with assms(2) obtain w1 where p: "wavePurgeLists cl w = Inr w1"
    and eq: "w' = w1\<lparr>N := n, E := e, R := r, M := waveModulo n r\<rparr>"
    by (auto simp: waveResize_def split: sum.splits)
  from assms(1) have "0 < M w" "M w \<le> LLONG_MAX" "pos w \<le> max 0 (last_ts w - start w)"
    by (simp_all add: positions_ordered_def)
  from positions_ordered_purge[OF p this] have "positions_ordered w1" .
  then show ?thesis using waveModulo_pos[of n r] waveModulo_le[of n r]
    by (simp add: eq positions_ordered_def)
next
  case (Reset now1 now2)
  with assms(2) have p: "wavePurgeLists cl (w\<lparr>start := now1, last_ts := now2, pos := 0, total := 0, z := 0\<rparr>) = Inr w'"
    by (simp add: waveReset_def)
  from assms(1) have m: "0 < M w" "M w \<le> LLONG_MAX" by (simp_all add: positions_ordered_def)
  from positions_ordered_purge[OF p] m show ?thesis by simp
qed

lemma positions_ordered_apply_ops:
  "positions_ordered w \<Longrightarrow> ops_within pos_below_modulus cl ninf w xs
   \<Longrightarrow> apply_ops cl ninf w xs = Inr w' \<Longrightarrow> positions_ordered w'"
proof (induction xs arbitrary: w)
  case Nil
  then show ?case by simp
next
  case (Cons x xs)
  from Cons.prems(3) obtain w1 where w1: "apply_op cl ninf w x = Inr w1"
    and r: "apply_ops cl ninf w1 xs = Inr w'"
    by (auto split: sum.splits)
  from Cons.prems(2) w1 have p: "pos_below_modulus w x"
    and o: "ops_within pos_below_modulus cl ninf w1 xs" by simp_all
  from positions_ordered_apply_op[OF Cons.prems(1) w1 p] have "positions_ordered w1" .
  from Cons.IH[OF this o r] show ?case .
qed

text \<open>
  C6, as the code has it. For a wave built by \<open>waveCreate\<close> and taken through any sequence
  of set, get, resize and reset in which every insert has \<open>ts - start < M\<close> (the position
  does not wrap around the modulus), the positions of \<open>L\<close> ascend from head to tail, ties
  allowed: an insert whose timestamp is not later than \<open>last\<close> takes the position of the
  insert before it.
\<close>

theorem L_weakly_ascending:
  assumes "waveCreate cl now n e r ts0 ex = Inr w0"
    "ops_within pos_below_modulus cl ninf w0 xs"
    "apply_ops cl ninf w0 xs = Inr w"
  shows "sorted_wrt (\<le>) (map ipos (L w))"
  using positions_ordered_apply_ops[OF positions_ordered_create[OF assms(1)] assms(2) assms(3)]
  by (simp add: positions_ordered_def)

theorem L_weakly_ascending_witness:
  "waveCreate (\<lambda>n e r. 2) 0 2 (1 / 2) 2 1000 1
     = Inr \<lparr>expire = 1, N = 2, E = 1 / 2, R = 2, M = 8, start = 1000, last_ts = 1000,
            pos = 0, total = 0, z = 0, l = [[], [], []], L = []\<rparr>
   \<and> ops_within pos_below_modulus (\<lambda>n e r. 2) 9223372036854775808
       \<lparr>expire = 1, N = 2, E = 1 / 2, R = 2, M = 8, start = 1000, last_ts = 1000,
        pos = 0, total = 0, z = 0, l = [[], [], []], L = []\<rparr>
       [Set True 1 1000, Set True 1 1001, Set True 1 1001]
   \<and> apply_ops (\<lambda>n e r. 2) 9223372036854775808
       \<lparr>expire = 1, N = 2, E = 1 / 2, R = 2, M = 8, start = 1000, last_ts = 1000,
        pos = 0, total = 0, z = 0, l = [[], [], []], L = []\<rparr>
       [Set True 1 1000, Set True 1 1001, Set True 1 1001]
     = Inr \<lparr>expire = 1, N = 2, E = 1 / 2, R = 2, M = 8, start = 1000, last_ts = 1001,
            pos = 1, total = 3, z = 0,
            l = [[\<lparr>ipos = 1, iv = 1, iz = 3\<rparr>, \<lparr>ipos = 0, iv = 1, iz = 1\<rparr>],
                 [\<lparr>ipos = 1, iv = 1, iz = 2\<rparr>], []],
            L = [\<lparr>ipos = 0, iv = 1, iz = 1\<rparr>, \<lparr>ipos = 1, iv = 1, iz = 2\<rparr>,
                 \<lparr>ipos = 1, iv = 1, iz = 3\<rparr>]\<rparr>
   \<and> sorted_wrt (\<le>) (map ipos [\<lparr>ipos = 0, iv = 1, iz = 1\<rparr>, \<lparr>ipos = 1, iv = 1, iz = 2\<rparr>,
                 \<lparr>ipos = 1, iv = 1, iz = 3\<rparr>])"
  using L_weakly_ascending[of "\<lambda>n e r. 2" 0 2 "1 / 2" 2 1000 1
      "\<lparr>expire = 1, N = 2, E = 1 / 2, R = 2, M = 8, start = 1000, last_ts = 1000,
        pos = 0, total = 0, z = 0, l = [[], [], []], L = []\<rparr>"
      9223372036854775808 "[Set True 1 1000, Set True 1 1001, Set True 1 1001]"
      "\<lparr>expire = 1, N = 2, E = 1 / 2, R = 2, M = 8, start = 1000, last_ts = 1001,
            pos = 1, total = 3, z = 0,
            l = [[\<lparr>ipos = 1, iv = 1, iz = 3\<rparr>, \<lparr>ipos = 0, iv = 1, iz = 1\<rparr>],
                 [\<lparr>ipos = 1, iv = 1, iz = 2\<rparr>], []],
            L = [\<lparr>ipos = 0, iv = 1, iz = 1\<rparr>, \<lparr>ipos = 1, iv = 1, iz = 2\<rparr>,
                 \<lparr>ipos = 1, iv = 1, iz = 3\<rparr>]\<rparr>"]
  by (simp add: create_steps waveSet_steps level_steps)

text \<open>C6 as stated fails: two inserts at the same timestamp share a position.\<close>

theorem same_timestamp_same_position:
  "case create_and_apply (\<lambda>n e r. 13) 9223372036854775808 0 60 (1 / 20) 1024 1000 1
          [Set True 5 1000, Set True 7 1000] of
     Inl err \<Rightarrow> False
   | Inr w \<Rightarrow> map ipos (L w) = [0, 0] \<and> \<not> sorted_wrt (<) (map ipos (L w))"
  by (simp add: create_steps waveSet_steps level_steps)

end
